theory Spec2Isabelle
  imports Complex_Main "HOL-Library.Sublist"
begin

section \<open>Strings: word splitting and joining\<close>

text \<open>
  The unquoted expansions of the entrypoint (\<^verbatim>\<open>python3 -m $LAUNCH_COMMAND\<close>) are split by
  the shell into words at the characters of the default \<^verbatim>\<open>IFS\<close> (space, tab, newline);
  empty words are dropped. \<open>split_words sep cur s\<close> scans \<open>s\<close> with the word \<open>cur\<close>
  under construction.
\<close>

fun split_words :: "(char \<Rightarrow> bool) \<Rightarrow> string \<Rightarrow> string \<Rightarrow> string list" where
  "split_words sep cur [] = (if cur = [] then [] else [cur])"
| "split_words sep cur (c # cs) =
     (if sep c then (if cur = [] then split_words sep [] cs else cur # split_words sep [] cs)
      else split_words sep (cur @ [c]) cs)"

definition is_ifs :: "char \<Rightarrow> bool" where
  "is_ifs c = (c = CHR '' '' \<or> c = CHR 0x09 \<or> c = CHR 0x0A)"

definition shell_words :: "string \<Rightarrow> string list" where
  "shell_words s = split_words is_ifs [] s"

section \<open>The entrypoint script\<close>

text \<open>
  The environment and the files the script reads. A variable that is unset expands to the
  empty string.
\<close>

type_synonym env = "string \<rightharpoonup> string"
type_synonym files = "string \<rightharpoonup> string"

definition expand :: "env \<Rightarrow> string \<Rightarrow> string" where
  "expand e v = (case e v of None \<Rightarrow> [] | Some s \<Rightarrow> s)"

text \<open>
  The script is modelled for a shell that starts in its default state. The environment can
  change that state before the first line of the script runs: \<^verbatim>\<open>BASH_ENV\<close> names a file
  that is sourced first, \<^verbatim>\<open>SHELLOPTS\<close>, \<^verbatim>\<open>BASHOPTS\<close>, \<^verbatim>\<open>POSIXLY_CORRECT\<close> and
  \<^verbatim>\<open>BASH_COMPAT\<close> set options (with \<^verbatim>\<open>nounset\<close> the script stops at the first unset variable),
  and a variable \<^verbatim>\<open>BASH_FUNC_name%%\<close> defines a function, which may replace \<^verbatim>\<open>[\<close>. The
  model covers the environments without these variables.
\<close>

definition shell_defaults :: "env \<Rightarrow> bool" where
  "shell_defaults e =
     (e ''BASH_ENV'' = None \<and> e ''SHELLOPTS'' = None \<and> e ''BASHOPTS'' = None
      \<and> e ''POSIXLY_CORRECT'' = None \<and> e ''BASH_COMPAT'' = None
      \<and> (\<forall>name. prefix ''BASH_FUNC_'' name \<longrightarrow> e name = None))"

text \<open>
  \<^verbatim>\<open>LORA_MODULES=$(<"$MODEL_DIR/$LORA_MODULES_MANIFEST_FILE")\<close>: the contents of the file,
  from which the command substitution drops the NUL bytes and then the trailing newlines;
  empty when the file cannot be read (the script goes on).
\<close>

definition drop_nul :: "string \<Rightarrow> string" where
  "drop_nul s = filter (\<lambda>c. c \<noteq> CHR 0x00) s"

definition strip_trailing_newlines :: "string \<Rightarrow> string" where
  "strip_trailing_newlines s = rev (dropWhile (\<lambda>c. c = CHR 0x0A) (rev s))"

definition LORA_MODULES :: "env \<Rightarrow> files \<Rightarrow> string" where
  "LORA_MODULES e fs =
     (case fs (expand e ''MODEL_DIR'' @ ''/'' @ expand e ''LORA_MODULES_MANIFEST_FILE'') of
        None \<Rightarrow> []
      | Some contents \<Rightarrow> strip_trailing_newlines (drop_nul contents))"

text \<open>The first assignment of \<^verbatim>\<open>LAUNCH_COMMAND\<close>; a backslash-newline inside the double
  quotes continues the line.\<close>

definition BASE_COMMAND :: "env \<Rightarrow> files \<Rightarrow> string" where
  "BASE_COMMAND e fs =
     ''vllm.entrypoints.openai.api_server --port 8080 --model '' @ expand e ''HF_MODEL_ID''
     @ '' --max-model-len '' @ expand e ''MAX_MODEL_LEN''
     @ '' --enable-lora --lora-modules '' @ LORA_MODULES e fs
     @ '' --max-loras '' @ expand e ''MAX_GPU_LORAS''
     @ '' --max-cpu-loras '' @ expand e ''MAX_CPU_LORAS''
     @ '' --max-num-seqs '' @ expand e ''MAX_NUM_SEQS''"

definition LAUNCH_COMMAND :: "env \<Rightarrow> files \<Rightarrow> string" where
  "LAUNCH_COMMAND e fs =
     (if expand e ''ENFORCE_EAGER'' = ''true''
      then BASE_COMMAND e fs @ '' --enforce-eager''
      else BASE_COMMAND e fs)"

text \<open>
  The words of the command line that is launched: \<^verbatim>\<open>python3 -m $LAUNCH_COMMAND\<close>. The
  expansion is not quoted, so after the splitting into words the shell performs pathname
  expansion: a word with one of the characters \<open>*\<close>, \<open>?\<close>, \<open>[\<close> or a backslash is a
  pattern, and is replaced by what the matching against the file system of the container
  gives under the options of the shell (the sorted names that match; the word itself when
  none does, by default). That result is the parameter \<open>glob\<close>. A word without these
  characters is left as it is.
\<close>

definition is_pattern :: "string \<Rightarrow> bool" where
  "is_pattern w = list_ex (\<lambda>c. c = CHR ''*'' \<or> c = CHR ''?'' \<or> c = CHR ''['' \<or> c = CHR 0x5C) w"

definition pathname_expansion :: "(string \<Rightarrow> string list) \<Rightarrow> string \<Rightarrow> string list" where
  "pathname_expansion glob w = (if is_pattern w then glob w else [w])"

definition launch_argv :: "(string \<Rightarrow> string list) \<Rightarrow> env \<Rightarrow> files \<Rightarrow> string list" where
  "launch_argv glob e fs =
     ''python3'' # ''-m'' # concat (map (pathname_expansion glob) (shell_words (LAUNCH_COMMAND e fs)))"

definition has_enforce_eager :: "(string \<Rightarrow> string list) \<Rightarrow> env \<Rightarrow> files \<Rightarrow> bool" where
  "has_enforce_eager glob e fs = (''--enforce-eager'' \<in> set (launch_argv glob e fs))"

text \<open>The values that the script interpolates into the first assignment.\<close>

definition interpolated :: "env \<Rightarrow> files \<Rightarrow> string list" where
  "interpolated e fs =
     [expand e ''HF_MODEL_ID'', expand e ''MAX_MODEL_LEN'', LORA_MODULES e fs,
      expand e ''MAX_GPU_LORAS'', expand e ''MAX_CPU_LORAS'', expand e ''MAX_NUM_SEQS'']"

text \<open>The environment that the notebook's deployment cell declares, with the value of
  \<^verbatim>\<open>ENFORCE_EAGER\<close> left open (\<open>None\<close>: the variable is not set), and the manifest
  file under the model directory.\<close>

definition deploy_config :: "string option \<Rightarrow> env" where
  "deploy_config ee =
     (map_of
        [(''MODEL_DIR'', ''/opt/ml/model''),
         (''LORA_MODULES_MANIFEST_FILE'', ''lora_modules.txt''),
         (''HF_MODEL_ID'', ''mistralai/Mistral-7B-Instruct-v0.1''),
         (''MAX_MODEL_LEN'', ''4096''),
         (''MAX_GPU_LORAS'', ''20''),
         (''MAX_CPU_LORAS'', ''50''),
         (''MAX_NUM_SEQS'', ''100'')]) (''ENFORCE_EAGER'' := ee)"

text \<open>Two answers of the file system: no pattern matches any name, and every pattern
  matches the one file named \<^verbatim>\<open>--enforce-eager\<close>.\<close>

definition no_match :: "string \<Rightarrow> string list" where
  "no_match w = [w]"

definition flag_file :: "string \<Rightarrow> string list" where
  "flag_file w = [''--enforce-eager'']"

definition model_files :: files where
  "model_files =
     [''/opt/ml/model/lora_modules.txt'' \<mapsto> ''1=/opt/ml/model/1/ 2=/opt/ml/model/2/'']"

section \<open>The container adaptation layer: two route substitutions\<close>

text \<open>
  \<^verbatim>\<open>sed -i 's|P|R|g' FILE\<close> rewrites every line of the file: scanning from the left, each
  match of \<open>P\<close> is replaced by \<open>R\<close> and the scan goes on after the match. Both patterns of
  the Dockerfile and both replacements are free of special characters, so they are literal
  strings. A line is a string without its newline.
\<close>

fun replace_all :: "string \<Rightarrow> string \<Rightarrow> string \<Rightarrow> string" where
  "replace_all p r [] = []"
| "replace_all p r (c # cs) =
     (if p \<noteq> [] \<and> prefix p (c # cs)
      then r @ replace_all p r (drop (length p) (c # cs))
      else c # replace_all p r cs)"

definition sed_health :: "string list \<Rightarrow> string list" where
  "sed_health ls = map (replace_all ''/health'' ''/ping'') ls"

definition sed_completions :: "string list \<Rightarrow> string list" where
  "sed_completions ls = map (replace_all ''/v1/completions'' ''/invocations'') ls"

text \<open>The two \<^verbatim>\<open>RUN\<close> steps, in the order of the Dockerfile.\<close>

definition patch_api_server :: "string list \<Rightarrow> string list" where
  "patch_api_server ls = sed_completions (sed_health ls)"

text \<open>\<open>occurs p s\<close>: the string \<open>p\<close> occurs in \<open>s\<close> as a substring.\<close>

fun occurs :: "string \<Rightarrow> string \<Rightarrow> bool" where
  "occurs p [] = (p = [])"
| "occurs p (c # cs) = (prefix p (c # cs) \<or> occurs p cs)"

definition mentions_route :: "string \<Rightarrow> bool" where
  "mentions_route l = (occurs ''/health'' l \<or> occurs ''/v1/completions'' l)"

section \<open>The manifest builder\<close>

text \<open>
  The response of \<^verbatim>\<open>list_objects_v2\<close> with a delimiter: the keys directly under the prefix
  (\<^verbatim>\<open>Contents\<close>) and the child prefixes (\<^verbatim>\<open>CommonPrefixes\<close>, a key that the response may
  lack). The storage service is a parameter of the model.
\<close>

record list_response =
  Contents :: "string list"
  CommonPrefixes :: "string list option"

type_synonym s3_client = "string \<Rightarrow> string \<Rightarrow> list_response"

text \<open>\<^verbatim>\<open>s.rstrip(ch)\<close> and \<^verbatim>\<open>s.rsplit(ch, 1)\<close> of Python.\<close>

definition rstrip :: "char \<Rightarrow> string \<Rightarrow> string" where
  "rstrip ch s = rev (dropWhile (\<lambda>c. c = ch) (rev s))"

definition rsplit1 :: "char \<Rightarrow> string \<Rightarrow> string list" where
  "rsplit1 ch s =
     (if ch \<in> set s
      then [rev (tl (dropWhile (\<lambda>c. c \<noteq> ch) (rev s))), rev (takeWhile (\<lambda>c. c \<noteq> ch) (rev s))]
      else [s])"

definition directory_name :: "string \<Rightarrow> string" where
  "directory_name directory_path = last (rsplit1 CHR ''/'' (rstrip CHR ''/'' directory_path))"

definition list_s3_leaf_directories :: "s3_client \<Rightarrow> string \<Rightarrow> string \<Rightarrow> string list" where
  "list_s3_leaf_directories s3 bucket_name list_prefix =
     (let response = s3 bucket_name list_prefix
      in map directory_name (case CommonPrefixes response of None \<Rightarrow> [] | Some ps \<Rightarrow> ps))"

text \<open>\<^verbatim>\<open>sep.join(xs)\<close> of Python, and the manifest line.\<close>

fun str_join :: "string \<Rightarrow> string list \<Rightarrow> string" where
  "str_join sep [] = []"
| "str_join sep [x] = x"
| "str_join sep (x # y # ys) = x @ sep @ str_join sep (y # ys)"

definition manifest_token :: "string \<Rightarrow> string" where
  "manifest_token leaf_dir = leaf_dir @ ''=/opt/ml/model/'' @ leaf_dir @ ''/''"

definition vllm_arg_pattern :: "string list \<Rightarrow> string" where
  "vllm_arg_pattern leaf_directories = str_join '' '' (map manifest_token leaf_directories)"

text \<open>The tokens of a line that are separated by spaces.\<close>

definition space_tokens :: "string \<Rightarrow> string list" where
  "space_tokens s = split_words (\<lambda>c. c = CHR '' '') [] s"

text \<open>
  The final path segment in the words of the specification: the last of the components
  that the character \<open>/\<close> separates, once the trailing \<open>/\<close> are stripped. \<open>split_on\<close> is
  the full split (\<^verbatim>\<open>s.split(ch)\<close>), which keeps empty components.
\<close>

fun split_on :: "char \<Rightarrow> string \<Rightarrow> string list" where
  "split_on ch [] = [[]]"
| "split_on ch (c # cs) =
     (if c = ch then [] # split_on ch cs
      else (c # hd (split_on ch cs)) # tl (split_on ch cs))"

definition final_path_segment :: "string \<Rightarrow> string" where
  "final_path_segment p = last (split_on CHR ''/'' (rstrip CHR ''/'' p))"

text \<open>A child prefix as the storage service forms it: the listed prefix, the name of the
  child, the delimiter.\<close>

definition child_prefix :: "string \<Rightarrow> string \<Rightarrow> string" where
  "child_prefix parent name = parent @ name @ ''/''"

text \<open>
  A listing as the notebook produces it: the manifest as a plain key next to three adapter
  directories. And one with a directory whose name has a space in it.
\<close>

definition sample_s3 :: s3_client where
  "sample_s3 bucket_name list_prefix =
     \<lparr>Contents = [list_prefix @ ''lora_modules.txt''],
      CommonPrefixes = Some (map (child_prefix list_prefix) [''1'', ''2'', ''3''])\<rparr>"

definition spaced_s3 :: s3_client where
  "spaced_s3 bucket_name list_prefix =
     \<lparr>Contents = [], CommonPrefixes = Some [child_prefix list_prefix ''my adapter'']\<rparr>"

definition common_prefixes :: "list_response \<Rightarrow> string list" where
  "common_prefixes response = (case CommonPrefixes response of None \<Rightarrow> [] | Some ps \<Rightarrow> ps)"

section \<open>The benchmark harness\<close>

subsection \<open>State\<close>

text \<open>
  The module-level variables of the benchmark cell, and one record for every thread that
  \<^verbatim>\<open>benchmark_scenario\<close> starts. A thread is at the head of its loop (about to take
  \<^verbatim>\<open>counters_lock\<close>), inside \<^verbatim>\<open>vllm_predictor.predict\<close> for the adapter it has claimed, out
  of its loop (it has run \<^verbatim>\<open>aggregate_latency.extend(latencies)\<close>), or dead of an exception
  that the remote call raised (nothing in \<^verbatim>\<open>invoke_adapter\<close> catches it, and the list of the
  thread is never merged).
\<close>

datatype py_error = ZeroDivisionError

datatype phase = AtLock | Calling int | Exited | Crashed

record worker =
  single_adapter :: bool
  phase :: phase
  latencies :: "real list"
  aggregate_latency :: "real list"

record payload =
  model :: string
  prompt :: string
  max_tokens :: int
  temperature :: int

record harness =
  total_requests :: int
  num_adapters :: int
  num_threads :: int
  adapter_counters :: "int list"
  workers :: "worker list"
  sent :: "payload list"

text \<open>The field \<open>sent\<close> is the log of the payloads handed to the remote call, in the order
  of the calls; the source has no such variable.\<close>

subsection \<open>Configuration\<close>

text \<open>
  \<^verbatim>\<open>adapter_counters = [total_requests // num_adapters] * num_adapters\<close>: the floor division
  raises when \<open>num_adapters\<close> is zero, and a list multiplied by a negative number is empty.
\<close>

definition configure :: "int \<Rightarrow> int \<Rightarrow> int \<Rightarrow> py_error + harness" where
  "configure T A W =
     (if A = 0 then Inl ZeroDivisionError
      else Inr \<lparr>total_requests = T, num_adapters = A, num_threads = W,
                adapter_counters = replicate (nat A) (T div A),
                workers = [], sent = []\<rparr>)"

subsection \<open>One thread: \<^verbatim>\<open>invoke_adapter\<close>\<close>

text \<open>\<^verbatim>\<open>str(n)\<close> of a Python integer.\<close>

fun str_nat :: "nat \<Rightarrow> string" where
  "str_nat n =
     (if n < 10 then [''0123456789'' ! n]
      else str_nat (n div 10) @ [''0123456789'' ! (n mod 10)])"

definition str_int :: "int \<Rightarrow> string" where
  "str_int i = (if i < 0 then CHR ''-'' # str_nat (nat (- i)) else str_nat (nat i))"

definition payload_adapter :: "int \<Rightarrow> payload" where
  "payload_adapter adapter_id =
     \<lparr>model = str_int adapter_id,
      prompt = ''[INST] Natalia sold clips to 48 of her friends in April, and then she sold half as many clips in May. How many clips did Natalia sell altogether in April and May? [/INST]'',
      max_tokens = 64,
      temperature = 0\<rparr>"

text \<open>
  The body of \<^verbatim>\<open>with counters_lock:\<close>, which one thread at a time executes: it returns the
  adapter claimed, or \<open>None\<close> for \<^verbatim>\<open>break\<close>. The number \<open>r\<close> is the draw of
  \<^verbatim>\<open>random.choice\<close>, which picks the element at index \<open>r mod length remaining_adapters\<close>:
  every element can be picked.
\<close>

definition remaining_adapters :: "int list \<Rightarrow> nat list" where
  "remaining_adapters cs = [i \<leftarrow> [0..<length cs]. cs ! i > 0]"

definition critical_section :: "bool \<Rightarrow> nat \<Rightarrow> harness \<Rightarrow> int option \<times> harness" where
  "critical_section single r h =
     (if single then
        (if total_requests h > 0
         then (Some 1, h\<lparr>total_requests := total_requests h - 1\<rparr>)
         else (None, h))
      else
        (let remaining = remaining_adapters (adapter_counters h) in
         if remaining = [] then (None, h)
         else
           (let adapter_id = int (remaining ! (r mod length remaining)) + 1;
                k = nat (adapter_id - 1)
            in (Some adapter_id,
                h\<lparr>adapter_counters := (adapter_counters h)[k := adapter_counters h ! k - 1]\<rparr>))))"

text \<open>
  What a thread does next. \<open>Lock r\<close>: it takes the lock, runs the critical section and
  either leaves its loop or builds the payload and enters the remote call. \<open>Return l\<close>: the
  remote call returns after \<open>l\<close> seconds, and the latency is appended to the private list.
  \<open>Raise\<close>: the remote call raises, which ends the thread.
\<close>

datatype event = Lock nat | Return real | Raise

definition set_worker :: "nat \<Rightarrow> worker \<Rightarrow> harness \<Rightarrow> harness" where
  "set_worker i w h = h\<lparr>workers := (workers h)[i := w]\<rparr>"

fun invoke_adapter_step :: "worker \<Rightarrow> event \<Rightarrow> nat \<Rightarrow> harness \<Rightarrow> harness" where
  "invoke_adapter_step w (Lock r) i h =
     (case phase w of
        AtLock \<Rightarrow>
          (case critical_section (single_adapter w) r h of
             (None, h') \<Rightarrow>
               set_worker i (w\<lparr>phase := Exited,
                                aggregate_latency := aggregate_latency w @ latencies w\<rparr>) h'
           | (Some adapter_id, h') \<Rightarrow>
               set_worker i (w\<lparr>phase := Calling adapter_id\<rparr>)
                 (h'\<lparr>sent := sent h' @ [payload_adapter adapter_id]\<rparr>))
      | _ \<Rightarrow> h)"
| "invoke_adapter_step w (Return l) i h =
     (case phase w of
        Calling adapter_id \<Rightarrow> set_worker i (w\<lparr>phase := AtLock, latencies := latencies w @ [l]\<rparr>) h
      | _ \<Rightarrow> h)"
| "invoke_adapter_step w Raise i h =
     (case phase w of
        Calling adapter_id \<Rightarrow> set_worker i (w\<lparr>phase := Crashed\<rparr>) h
      | _ \<Rightarrow> h)"

text \<open>A step of the harness: thread \<open>i\<close> does \<open>ev\<close>. A step that the thread cannot take
  (no such thread, or an event that does not fit its phase) leaves the state as it is.\<close>

definition step :: "nat \<times> event \<Rightarrow> harness \<Rightarrow> harness" where
  "step e h =
     (case e of (i, ev) \<Rightarrow>
        if i < length (workers h) then invoke_adapter_step (workers h ! i) ev i h else h)"

fun fits :: "phase \<Rightarrow> event \<Rightarrow> bool" where
  "fits AtLock (Lock r) = True"
| "fits (Calling a) (Return l) = True"
| "fits (Calling a) Raise = True"
| "fits _ _ = False"

definition enabled :: "nat \<times> event \<Rightarrow> harness \<Rightarrow> bool" where
  "enabled e h =
     (case e of (i, ev) \<Rightarrow> i < length (workers h) \<and> fits (phase (workers h ! i)) ev)"

text \<open>A schedule is the interleaving of the threads: who moves, and how.\<close>

fun exec :: "(nat \<times> event) list \<Rightarrow> harness \<Rightarrow> harness" where
  "exec [] h = h"
| "exec (e # es) h = exec es (step e h)"

fun valid_schedule :: "(nat \<times> event) list \<Rightarrow> harness \<Rightarrow> bool" where
  "valid_schedule [] h = True"
| "valid_schedule (e # es) h = (enabled e h \<and> valid_schedule es (step e h))"

subsection \<open>\<^verbatim>\<open>benchmark_scenario\<close>\<close>

text \<open>The threads are created with empty lists; the module-level counters are left as
  they are.\<close>

definition new_worker :: "bool \<Rightarrow> worker" where
  "new_worker single =
     \<lparr>single_adapter = single, phase = AtLock, latencies = [], aggregate_latency = []\<rparr>"

definition benchmark_start :: "bool \<Rightarrow> harness \<Rightarrow> harness" where
  "benchmark_start single h = h\<lparr>workers := replicate (nat (num_threads h)) (new_worker single)\<rparr>"

text \<open>\<^verbatim>\<open>thread.join()\<close> returns for a thread that has ended, in either way.\<close>

definition ended :: "worker \<Rightarrow> bool" where
  "ended w = (phase w = Exited \<or> phase w = Crashed)"

definition joined :: "harness \<Rightarrow> bool" where
  "joined h = list_all ended (workers h)"

definition all_exited :: "harness \<Rightarrow> bool" where
  "all_exited h = list_all (\<lambda>w. phase w = Exited) (workers h)"

definition all_latencies :: "harness \<Rightarrow> real list list" where
  "all_latencies h = map aggregate_latency (workers h)"

definition total_requests_made :: "harness \<Rightarrow> nat" where
  "total_requests_made h = sum_list (map length (all_latencies h))"


text \<open>A run of the scenario under a schedule, and a sequence of runs on the same module
  state.\<close>

definition run_scenario :: "bool \<Rightarrow> (nat \<times> event) list \<Rightarrow> harness \<Rightarrow> harness" where
  "run_scenario single sched h = exec sched (benchmark_start single h)"

fun run_scenarios :: "(bool \<times> (nat \<times> event) list) list \<Rightarrow> harness \<Rightarrow> harness" where
  "run_scenarios [] h = h"
| "run_scenarios ((single, sched) # rs) h = run_scenarios rs (run_scenario single sched h)"

definition counters_nonneg :: "harness \<Rightarrow> bool" where
  "counters_nonneg h = (0 \<le> total_requests h \<and> list_all (\<lambda>c. 0 \<le> c) (adapter_counters h))"

text \<open>The schedule in which one thread does everything: \<open>n\<close> calls that return after
  \<open>l\<close> seconds each, then the visit of the lock that ends the loop.\<close>

text \<open>Thread \<open>i\<close> makes \<open>n\<close> calls in a row, each returning after \<open>l\<close> seconds.\<close>

definition worker_calls :: "nat \<Rightarrow> nat \<Rightarrow> real \<Rightarrow> (nat \<times> event) list" where
  "worker_calls i n l = concat (replicate n [(i, Lock 0), (i, Return l)])"

text \<open>
  A schedule of five threads. Three of them are inside the remote call at the same time;
  then thread 3 makes \<open>n\<close> calls; then all five visit the lock, where thread 0 claims a
  unit and the others leave, and thread 0 returns from its call and leaves.
\<close>

definition contended_schedule :: "nat \<Rightarrow> real \<Rightarrow> (nat \<times> event) list" where
  "contended_schedule n l =
     [(0, Lock 0), (1, Lock 0), (2, Lock 0), (2, Return l), (0, Return l), (1, Return l)]
     @ worker_calls 3 n l
     @ [(0, Lock 0), (1, Lock 0), (2, Lock 0), (3, Lock 0), (4, Lock 0), (0, Return l), (0, Lock 0)]"

definition solo_schedule :: "nat \<Rightarrow> real \<Rightarrow> (nat \<times> event) list" where
  "solo_schedule n l = concat (replicate n [(0, Lock 0), (0, Return l)]) @ [(0, Lock 0)]"

text \<open>
  A schedule of two threads: thread 1 claims a unit and is inside its remote call while
  thread 0 makes \<open>n\<close> calls and leaves; then the call of thread 1 returns, and thread 1
  leaves.
\<close>

definition overlapped_schedule :: "nat \<Rightarrow> real \<Rightarrow> (nat \<times> event) list" where
  "overlapped_schedule n l = (1, Lock 7) # solo_schedule n l @ [(1, Return l), (1, Lock 0)]"

subsection \<open>Accounting\<close>

text \<open>
  Quantities for the proofs; nothing of the source corresponds to them. \<open>in_flight w\<close>
  counts the call that thread \<open>w\<close> has issued and whose latency is not in its list (it is
  inside the call, or the call raised). \<open>work_left\<close> bounds the number of steps that the
  threads can still take: two for every unit of budget (the visit of the lock and the
  return of the call), two for a thread inside a call, one for a thread at the lock.
\<close>

definition in_flight :: "worker \<Rightarrow> nat" where
  "in_flight w = (case phase w of Calling a \<Rightarrow> 1 | Crashed \<Rightarrow> 1 | _ \<Rightarrow> 0)"

definition calls_of :: "harness \<Rightarrow> nat" where
  "calls_of h = sum_list (map (\<lambda>w. length (latencies w) + in_flight w) (workers h))"

definition phase_weight :: "worker \<Rightarrow> nat" where
  "phase_weight w = (case phase w of AtLock \<Rightarrow> 1 | Calling a \<Rightarrow> 2 | _ \<Rightarrow> 0)"

definition work_left :: "harness \<Rightarrow> nat" where
  "work_left h =
     2 * (nat (total_requests h) + sum_list (map nat (adapter_counters h)))
     + sum_list (map phase_weight (workers h))"

text \<open>A thread that has left its loop has seen its budget exhausted, and has merged its
  list; the lists of the other threads are still empty.\<close>

definition exit_justified :: "harness \<Rightarrow> bool" where
  "exit_justified h =
     list_all (\<lambda>w. phase w = Exited \<longrightarrow>
        (single_adapter w \<longrightarrow> total_requests h \<le> 0)
        \<and> (\<not> single_adapter w \<longrightarrow> list_all (\<lambda>c. c \<le> 0) (adapter_counters h))) (workers h)"

definition merged :: "worker \<Rightarrow> bool" where
  "merged w = (aggregate_latency w = (if phase w = Exited then latencies w else []))"

section \<open>Properties of the entrypoint script\<close>


lemma split_words_sep:
  "sep c \<Longrightarrow> split_words sep cur (a @ c # b) = split_words sep cur a @ split_words sep [] b"
  by (induction a arbitrary: cur) auto

lemma shell_words_BASE_COMMAND:
  "shell_words (BASE_COMMAND e fs @ t) =
     [''vllm.entrypoints.openai.api_server'', ''--port'', ''8080'', ''--model'']
     @ shell_words (expand e ''HF_MODEL_ID'') @ [''--max-model-len'']
     @ shell_words (expand e ''MAX_MODEL_LEN'') @ [''--enable-lora'', ''--lora-modules'']
     @ shell_words (LORA_MODULES e fs) @ [''--max-loras'']
     @ shell_words (expand e ''MAX_GPU_LORAS'') @ [''--max-cpu-loras'']
     @ shell_words (expand e ''MAX_CPU_LORAS'') @ [''--max-num-seqs'']
     @ shell_words (expand e ''MAX_NUM_SEQS'' @ t)"
  by (simp add: shell_words_def BASE_COMMAND_def split_words_sep is_ifs_def)

lemma shell_words_flag_suffix:
  "shell_words (v @ '' --enforce-eager'') = shell_words v @ [''--enforce-eager'']"
  by (simp add: shell_words_def split_words_sep is_ifs_def)

lemma pathname_expansion_plain:
  "\<not> is_pattern w \<Longrightarrow> pathname_expansion glob w = [w]"
  by (simp add: pathname_expansion_def)

lemma fixed_words_plain:
  "concat (map (pathname_expansion glob)
     [''vllm.entrypoints.openai.api_server'', ''--port'', ''8080'', ''--model''])
   = [''vllm.entrypoints.openai.api_server'', ''--port'', ''8080'', ''--model'']"
  "pathname_expansion glob ''--max-model-len'' = [''--max-model-len'']"
  "concat (map (pathname_expansion glob) [''--enable-lora'', ''--lora-modules''])
   = [''--enable-lora'', ''--lora-modules'']"
  "pathname_expansion glob ''--max-loras'' = [''--max-loras'']"
  "pathname_expansion glob ''--max-cpu-loras'' = [''--max-cpu-loras'']"
  "pathname_expansion glob ''--max-num-seqs'' = [''--max-num-seqs'']"
  "pathname_expansion glob ''--enforce-eager'' = [''--enforce-eager'']"
  by (simp_all add: pathname_expansion_def is_pattern_def)

text \<open>
  Claim C5, as the code has it, for a shell that starts in its default state. The script
  appends \<^verbatim>\<open> --enforce-eager\<close> to the command exactly when \<^verbatim>\<open>ENFORCE_EAGER\<close> is the string \<^verbatim>\<open>true\<close>; and when none of the values that
  the script interpolates (the five variables and the manifest, read without its NUL bytes
  and trailing newlines) gives the word \<^verbatim>\<open>--enforce-eager\<close> after word splitting and
  pathname expansion, the launched command line has the flag exactly when
  \<^verbatim>\<open>ENFORCE_EAGER\<close> is \<^verbatim>\<open>true\<close>. Every other value, and the unset variable, omit it.
\<close>

theorem enforce_eager_iff_true:
  assumes "shell_defaults e"
    and "\<forall>v \<in> set (interpolated e fs). \<forall>w \<in> set (shell_words v).
             ''--enforce-eager'' \<notin> set (pathname_expansion glob w)"
  shows "LAUNCH_COMMAND e fs =
           BASE_COMMAND e fs @ (if expand e ''ENFORCE_EAGER'' = ''true'' then '' --enforce-eager'' else [])
         \<and> (has_enforce_eager glob e fs \<longleftrightarrow> expand e ''ENFORCE_EAGER'' = ''true'')"
proof -
  let ?x = "\<lambda>ws. concat (map (pathname_expansion glob) ws)"
  have w: "shell_words (BASE_COMMAND e fs) = shell_words (BASE_COMMAND e fs @ [])" by simp
  have val: "''--enforce-eager'' \<notin> set (?x (shell_words v))" if "v \<in> set (interpolated e fs)" for v
    using assms(2) that by auto
  have vals: "''--enforce-eager'' \<notin> set (?x (shell_words (expand e ''HF_MODEL_ID'')))"
    "''--enforce-eager'' \<notin> set (?x (shell_words (expand e ''MAX_MODEL_LEN'')))"
    "''--enforce-eager'' \<notin> set (?x (shell_words (LORA_MODULES e fs)))"
    "''--enforce-eager'' \<notin> set (?x (shell_words (expand e ''MAX_GPU_LORAS'')))"
    "''--enforce-eager'' \<notin> set (?x (shell_words (expand e ''MAX_CPU_LORAS'')))"
    "''--enforce-eager'' \<notin> set (?x (shell_words (expand e ''MAX_NUM_SEQS'')))"
    by (rule val, simp add: interpolated_def)+
  have base: "''--enforce-eager'' \<notin> set (?x (shell_words (BASE_COMMAND e fs)))"
    unfolding w shell_words_BASE_COMMAND map_append concat_append set_append fixed_words_plain
    using vals by (simp add: fixed_words_plain)
  have "?x (shell_words (BASE_COMMAND e fs @ '' --enforce-eager''))
        = ?x (shell_words (BASE_COMMAND e fs)) @ [''--enforce-eager'']"
    using shell_words_flag_suffix [of "BASE_COMMAND e fs"] by (simp add: fixed_words_plain)
  then have flag: "''--enforce-eager'' \<in> set (?x (shell_words (BASE_COMMAND e fs @ '' --enforce-eager'')))"
    by simp
  show ?thesis
    using base flag by (simp add: LAUNCH_COMMAND_def has_enforce_eager_def launch_argv_def)
qed

lemma interpolated_deploy_config:
  "\<forall>v \<in> set (interpolated (deploy_config ee) model_files). \<forall>w \<in> set (shell_words v).
     ''--enforce-eager'' \<notin> set (pathname_expansion glob w)"
  by (simp add: interpolated_def deploy_config_def model_files_def expand_def LORA_MODULES_def
      strip_trailing_newlines_def drop_nul_def shell_words_def is_ifs_def pathname_expansion_def
      is_pattern_def)

lemma shell_defaults_deploy_config: "shell_defaults (deploy_config ee)"
  by (auto simp: shell_defaults_def deploy_config_def)

text \<open>The deployment configuration of the notebook with \<^verbatim>\<open>ENFORCE_EAGER\<close> set to
  \<^verbatim>\<open>true\<close>, \<^verbatim>\<open>True\<close>, \<^verbatim>\<open>1\<close>, \<^verbatim>\<open>false\<close>, and unset, in a container where every
  pattern would match a file named \<^verbatim>\<open>--enforce-eager\<close>.\<close>

theorem enforce_eager_iff_true_witness:
  "has_enforce_eager flag_file (deploy_config (Some ''true'')) model_files
   \<and> \<not> has_enforce_eager flag_file (deploy_config (Some ''True'')) model_files
   \<and> \<not> has_enforce_eager flag_file (deploy_config (Some ''1'')) model_files
   \<and> \<not> has_enforce_eager flag_file (deploy_config (Some ''false'')) model_files
   \<and> \<not> has_enforce_eager flag_file (deploy_config None) model_files"
  using enforce_eager_iff_true [OF shell_defaults_deploy_config interpolated_deploy_config, of "Some ''true''" flag_file]
    enforce_eager_iff_true [OF shell_defaults_deploy_config interpolated_deploy_config, of "Some ''True''" flag_file]
    enforce_eager_iff_true [OF shell_defaults_deploy_config interpolated_deploy_config, of "Some ''1''" flag_file]
    enforce_eager_iff_true [OF shell_defaults_deploy_config interpolated_deploy_config, of "Some ''false''" flag_file]
    enforce_eager_iff_true [OF shell_defaults_deploy_config interpolated_deploy_config, of None flag_file]
  by (simp add: deploy_config_def expand_def)

text \<open>
  Without the condition on the interpolated values the equivalence fails: the values are
  pasted into the command unchecked, so \<^verbatim>\<open>MAX_NUM_SEQS="100 --enforce-eager"\<close> puts the flag
  on the command line while \<^verbatim>\<open>ENFORCE_EAGER\<close> is unset.
\<close>

theorem enforce_eager_injected_counterexample:
  "shell_defaults ((deploy_config None)(''MAX_NUM_SEQS'' \<mapsto> ''100 --enforce-eager''))
   \<and> \<not> (has_enforce_eager no_match ((deploy_config None)(''MAX_NUM_SEQS'' \<mapsto> ''100 --enforce-eager'')) model_files
       \<longleftrightarrow> expand ((deploy_config None)(''MAX_NUM_SEQS'' \<mapsto> ''100 --enforce-eager'')) ''ENFORCE_EAGER'' = ''true'')"
  by (simp add: has_enforce_eager_def launch_argv_def shell_words_def LAUNCH_COMMAND_def
      BASE_COMMAND_def expand_def LORA_MODULES_def deploy_config_def model_files_def
      strip_trailing_newlines_def drop_nul_def is_ifs_def pathname_expansion_def is_pattern_def
      shell_defaults_def)

text \<open>
  The same happens through the manifest, whose NUL bytes the command substitution drops,
  and through a pattern that matches a file named as the flag.
\<close>

lemma enforce_eager_through_manifest:
  "has_enforce_eager no_match (deploy_config None)
     [''/opt/ml/model/lora_modules.txt'' \<mapsto> ''--enforce-'' @ [CHR 0x00] @ ''eager'' @ [CHR 0x0A]]"
  by (simp add: has_enforce_eager_def launch_argv_def shell_words_def LAUNCH_COMMAND_def
      BASE_COMMAND_def expand_def LORA_MODULES_def deploy_config_def
      strip_trailing_newlines_def drop_nul_def is_ifs_def pathname_expansion_def is_pattern_def)

lemma enforce_eager_through_pattern:
  "has_enforce_eager flag_file ((deploy_config None)(''MAX_NUM_SEQS'' \<mapsto> ''--enforce-eage?'')) model_files"
  by (simp add: has_enforce_eager_def launch_argv_def shell_words_def LAUNCH_COMMAND_def
      BASE_COMMAND_def expand_def LORA_MODULES_def deploy_config_def model_files_def
      strip_trailing_newlines_def drop_nul_def is_ifs_def pathname_expansion_def is_pattern_def
      flag_file_def)

section \<open>Properties of the route substitutions\<close>

lemma prefix_replace_all:
  assumes "\<And>b t. suffix (x # b) q \<Longrightarrow>
             \<not> prefix (x # b) (x # r' @ t) \<and> \<not> prefix (x # b) (x # p' @ t)"
  shows "prefix q (replace_all (x # p') (x # r') s) = prefix q s"
  using assms
proof (induction s arbitrary: q)
  case Nil
  then show ?case by simp
next
  case (Cons c cs)
  show ?case
  proof (cases q)
    case Nil
    then show ?thesis by simp
  next
    case q: (Cons q0 qs)
    show ?thesis
    proof (cases "prefix (x # p') (c # cs)")
      case True
      then obtain t where t: "c # cs = x # p' @ t" by (auto simp: prefix_def)
      have out: "replace_all (x # p') (x # r') (c # cs)
                 = x # r' @ replace_all (x # p') (x # r') (drop (length (x # p')) (c # cs))"
        using True by simp
      show ?thesis
      proof (cases "q0 = x")
        case True
        then have sq: "suffix (x # qs) q" and qx: "q = x # qs" using q by simp_all
        have "\<not> prefix q (replace_all (x # p') (x # r') (c # cs))"
          using Cons.prems [OF sq] unfolding out qx by blast
        moreover have "\<not> prefix q (c # cs)"
          using Cons.prems [OF sq] unfolding t qx by blast
        ultimately show ?thesis by blast
      next
        case False
        then show ?thesis unfolding out t q by simp
      qed
    next
      case False
      have "\<And>b t. suffix (x # b) qs \<Longrightarrow>
              \<not> prefix (x # b) (x # r' @ t) \<and> \<not> prefix (x # b) (x # p' @ t)"
        using Cons.prems q by (simp add: suffix_ConsI)
      from Cons.IH [OF this] False q show ?thesis by auto
    qed
  qed
qed

lemma occurs_skip: "x \<notin> set a \<Longrightarrow> occurs (x # q) (a @ u) = occurs (x # q) u"
  by (induction a) auto

lemma occurs_drop: "\<not> occurs p s \<Longrightarrow> \<not> occurs p (drop n s)"
proof (induction s arbitrary: n)
  case Nil
  then show ?case by simp
next
  case (Cons c cs)
  then show ?case by (cases n) auto
qed

lemma replace_all_no_occurrence:
  assumes q: "\<And>b t. suffix (x # b) q \<Longrightarrow>
             \<not> prefix (x # b) (x # r' @ t) \<and> \<not> prefix (x # b) (x # p' @ t)"
    and r: "x \<notin> set r'"
    and clash: "\<And>t. \<not> prefix (x # q) (x # r' @ t)"
  shows "x # q = x # p' \<or> \<not> occurs (x # q) s
         \<Longrightarrow> \<not> occurs (x # q) (replace_all (x # p') (x # r') s)"
proof (induction s rule: length_induct)
  case (1 s)
  show ?case
  proof (cases s)
    case Nil
    then show ?thesis by simp
  next
    case (Cons c cs)
    show ?thesis
    proof (cases "prefix (x # p') (c # cs)")
      case True
      let ?d = "drop (length (x # p')) (c # cs)"
      have "length ?d < length s" using Cons by simp
      moreover have "x # q = x # p' \<or> \<not> occurs (x # q) ?d"
        using "1.prems" Cons occurs_drop [of "x # q" s] by blast
      ultimately have "\<not> occurs (x # q) (replace_all (x # p') (x # r') ?d)"
        using "1.IH" by blast
      then have "\<not> occurs (x # q) ((x # r') @ replace_all (x # p') (x # r') ?d)"
        using clash occurs_skip [OF r] by simp
      with True Cons show ?thesis by simp
    next
      case False
      have "length cs < length s" using Cons by simp
      moreover have "x # q = x # p' \<or> \<not> occurs (x # q) cs"
        using "1.prems" Cons by auto
      ultimately have tl: "\<not> occurs (x # q) (replace_all (x # p') (x # r') cs)"
        using "1.IH" by blast
      have "\<not> prefix (x # q) (c # cs)"
        using "1.prems" False Cons by auto
      then have hd: "\<not> prefix (x # q) (c # replace_all (x # p') (x # r') cs)"
        using prefix_replace_all [OF q, where s = cs] by simp
      have "replace_all (x # p') (x # r') s = c # replace_all (x # p') (x # r') cs"
        using False Cons by auto
      then show ?thesis
        using hd tl by simp
    qed
  qed
qed

lemma replace_all_absent: "\<not> occurs p s \<Longrightarrow> replace_all p r s = s"
  by (induction s) auto

lemma health_gone: "\<not> occurs ''/health'' (replace_all ''/health'' ''/ping'' s)"
proof -
  have "\<not> occurs (CHR ''/'' # ''health'')
          (replace_all (CHR ''/'' # ''health'') (CHR ''/'' # ''ping'') s)"
    by (rule replace_all_no_occurrence) (auto simp: suffix_Cons)
  then show ?thesis by simp
qed

lemma completions_gone:
  "\<not> occurs ''/v1/completions'' (replace_all ''/v1/completions'' ''/invocations'' s)"
proof -
  have "\<not> occurs (CHR ''/'' # ''v1/completions'')
          (replace_all (CHR ''/'' # ''v1/completions'') (CHR ''/'' # ''invocations'') s)"
    by (rule replace_all_no_occurrence) (auto simp: suffix_Cons)
  then show ?thesis by simp
qed

lemma health_stays_gone:
  assumes "\<not> occurs ''/health'' s"
  shows "\<not> occurs ''/health'' (replace_all ''/v1/completions'' ''/invocations'' s)"
proof -
  have "\<not> occurs (CHR ''/'' # ''health'')
          (replace_all (CHR ''/'' # ''v1/completions'') (CHR ''/'' # ''invocations'') s)"
    using assms by (intro replace_all_no_occurrence) (auto simp: suffix_Cons)
  then show ?thesis by simp
qed

lemma patch_line_fixed:
  "replace_all ''/v1/completions'' ''/invocations''
     (replace_all ''/health'' ''/ping''
        (replace_all ''/v1/completions'' ''/invocations'' (replace_all ''/health'' ''/ping'' l)))
   = replace_all ''/v1/completions'' ''/invocations'' (replace_all ''/health'' ''/ping'' l)"
proof -
  let ?f = "replace_all ''/health'' ''/ping''"
  let ?g = "replace_all ''/v1/completions'' ''/invocations''"
  have "\<not> occurs ''/health'' (?g (?f l))"
    by (rule health_stays_gone) (rule health_gone)
  then have "?f (?g (?f l)) = ?g (?f l)"
    by (rule replace_all_absent)
  moreover have "?g (?g (?f l)) = ?g (?f l)"
    by (rule replace_all_absent) (rule completions_gone)
  ultimately show ?thesis by simp
qed

lemma patch_line_untouched:
  "\<not> mentions_route l
   \<Longrightarrow> replace_all ''/v1/completions'' ''/invocations'' (replace_all ''/health'' ''/ping'' l) = l"
  by (simp add: mentions_route_def replace_all_absent)

text \<open>
  Claim C6, as the code has it. The two substitutions together are idempotent: a second
  application changes nothing. They keep the number of lines, and they are scoped to the
  occurrences of the two patterns: a line in which neither \<^verbatim>\<open>/health\<close> nor
  \<^verbatim>\<open>/v1/completions\<close> occurs as a substring is left as it is.
\<close>

theorem route_substitutions_idempotent_scoped:
  "patch_api_server (patch_api_server ls) = patch_api_server ls
   \<and> length (patch_api_server ls) = length ls
   \<and> (\<forall>i < length ls. \<not> mentions_route (ls ! i) \<longrightarrow> patch_api_server ls ! i = ls ! i)"
  by (simp add: patch_api_server_def sed_health_def sed_completions_def
      patch_line_fixed patch_line_untouched)

text \<open>Four routes, of which two are the named ones.\<close>

theorem route_substitutions_idempotent_scoped_witness:
  "patch_api_server [''/health'', ''/v1/models'', ''/v1/chat/completions'', ''/v1/completions'']
     = [''/ping'', ''/v1/models'', ''/v1/chat/completions'', ''/invocations'']
   \<and> patch_api_server [''/ping'', ''/v1/models'', ''/v1/chat/completions'', ''/invocations'']
     = [''/ping'', ''/v1/models'', ''/v1/chat/completions'', ''/invocations'']
   \<and> \<not> mentions_route ''/v1/chat/completions''
   \<and> patch_api_server [''/health'', ''/v1/models'', ''/v1/chat/completions'', ''/v1/completions''] ! 2
     = ''/v1/chat/completions''"
proof -
  let ?ls = "[''/health'', ''/v1/models'', ''/v1/chat/completions'', ''/v1/completions'']"
  have p: "patch_api_server ?ls = [''/ping'', ''/v1/models'', ''/v1/chat/completions'', ''/invocations'']"
    by (simp add: patch_api_server_def sed_health_def sed_completions_def)
  have m: "\<not> mentions_route ''/v1/chat/completions''"
    by (simp add: mentions_route_def)
  from route_substitutions_idempotent_scoped [of ?ls]
  have "patch_api_server (patch_api_server ?ls) = patch_api_server ?ls"
    and "\<not> mentions_route (?ls ! 2) \<longrightarrow> patch_api_server ?ls ! 2 = ?ls ! 2"
    by simp_all
  with p m show ?thesis by simp
qed

text \<open>
  The substitution is on substrings, not on whole routes: a route that is neither of the
  two named ones but contains one of them, such as \<^verbatim>\<open>/healthz\<close>, is rewritten as well.
\<close>

theorem other_route_rewritten_counterexample:
  "''/healthz'' \<noteq> ''/health'' \<and> ''/healthz'' \<noteq> ''/v1/completions''
   \<and> patch_api_server [''/healthz''] = [''/pingz'']
   \<and> patch_api_server [''/healthz''] \<noteq> [''/healthz'']"
  by (simp add: patch_api_server_def sed_health_def sed_completions_def)

section \<open>Properties of the manifest builder\<close>

lemma takeWhile_absent:
  "ch \<notin> set s \<Longrightarrow> takeWhile (\<lambda>c. c \<noteq> ch) (s @ t) = s @ takeWhile (\<lambda>c. c \<noteq> ch) t"
  by (induction s) auto

lemma takeWhile_present:
  "ch \<in> set s \<Longrightarrow> takeWhile (\<lambda>c. c \<noteq> ch) (s @ t) = takeWhile (\<lambda>c. c \<noteq> ch) s"
  by (induction s) auto

lemma takeWhile_absent_all: "ch \<notin> set s \<Longrightarrow> takeWhile (\<lambda>c. c \<noteq> ch) s = s"
  by (induction s) auto

lemma split_on_not_Nil: "split_on ch s \<noteq> []"
  by (induction s) auto

lemma split_on_absent: "ch \<notin> set s \<Longrightarrow> split_on ch s = [s]"
  by (induction s) auto

lemma split_on_present: "ch \<in> set s \<Longrightarrow> tl (split_on ch s) \<noteq> []"
  by (induction s) (auto simp: split_on_not_Nil)

lemma last_split_on: "last (split_on ch s) = rev (takeWhile (\<lambda>c. c \<noteq> ch) (rev s))"
proof (induction s)
  case Nil
  then show ?case by simp
next
  case (Cons c cs)
  show ?case
  proof (cases "ch \<in> set cs")
    case True
    then have "last (split_on ch (c # cs)) = last (split_on ch cs)"
      using split_on_present [OF True] split_on_not_Nil [of ch cs]
      by (cases "split_on ch cs") auto
    moreover have "takeWhile (\<lambda>c. c \<noteq> ch) (rev cs @ [c]) = takeWhile (\<lambda>c. c \<noteq> ch) (rev cs)"
      using True by (simp add: takeWhile_present)
    ultimately show ?thesis using Cons.IH by simp
  next
    case False
    then have "takeWhile (\<lambda>c. c \<noteq> ch) (rev cs @ [c]) = rev cs @ takeWhile (\<lambda>c. c \<noteq> ch) [c]"
      by (simp add: takeWhile_absent)
    with False show ?thesis by (auto simp: split_on_absent)
  qed
qed

lemma last_rsplit1: "last (rsplit1 ch s) = rev (takeWhile (\<lambda>c. c \<noteq> ch) (rev s))"
  by (auto simp: rsplit1_def takeWhile_absent_all)

lemma directory_name_final_segment: "directory_name p = final_path_segment p"
  by (simp add: directory_name_def final_path_segment_def last_rsplit1 last_split_on)

lemma directory_name_child_prefix:
  assumes "parent = [] \<or> last parent = CHR ''/''" "name \<noteq> []" "CHR ''/'' \<notin> set name"
  shows "directory_name (child_prefix parent name) = name"
proof -
  have "last name \<noteq> CHR ''/''" using assms by (metis last_in_set)
  then have "rstrip CHR ''/'' (child_prefix parent name) = parent @ name"
    using assms(2) by (simp add: rstrip_def child_prefix_def) (cases name rule: rev_cases, auto)
  moreover have "takeWhile (\<lambda>c. c \<noteq> CHR ''/'') (rev name @ rev parent) = rev name"
  proof (cases parent rule: rev_cases)
    case Nil
    then show ?thesis using assms(3) by (simp add: takeWhile_absent_all)
  next
    case (snoc ps c)
    then have "c = CHR ''/''" using assms(1) by simp
    then show ?thesis using snoc assms(3) by (simp add: takeWhile_absent)
  qed
  ultimately show ?thesis by (simp add: directory_name_def last_rsplit1)
qed

lemma leaf_directories_of_children:
  assumes "common_prefixes (s3 b p) = map (child_prefix p) names"
    and "p = [] \<or> last p = CHR ''/''"
    and "\<forall>n \<in> set names. n \<noteq> [] \<and> CHR ''/'' \<notin> set n"
  shows "list_s3_leaf_directories s3 b p = names"
proof -
  have "map (directory_name \<circ> child_prefix p) names = names"
    using assms(2,3) by (simp add: map_idI directory_name_child_prefix)
  then show ?thesis
    using assms(1) by (simp add: list_s3_leaf_directories_def common_prefixes_def)
qed

text \<open>
  Claim C8. The identifiers that \<^verbatim>\<open>list_s3_leaf_directories\<close> returns are the final path
  segments of the child prefixes of the response, one for each, in order; for a child
  prefix made of the listed prefix, a name and the delimiter, the identifier is the name.
  The keys of the response (\<^verbatim>\<open>Contents\<close>, where a plain object such as the manifest file is
  listed) have no influence on the result.
\<close>

theorem leaf_directory_is_final_segment:
  "list_s3_leaf_directories s3 b p = map final_path_segment (common_prefixes (s3 b p))
   \<and> (common_prefixes (s3 b p) = map (child_prefix p) names
        \<and> (p = [] \<or> last p = CHR ''/'')
        \<and> (\<forall>n \<in> set names. n \<noteq> [] \<and> CHR ''/'' \<notin> set n)
       \<longrightarrow> list_s3_leaf_directories s3 b p = names)
   \<and> list_s3_leaf_directories (\<lambda>b p. (s3 b p)\<lparr>Contents := ks\<rparr>) b p
       = list_s3_leaf_directories s3 b p"
proof -
  have "list_s3_leaf_directories s3 b p = map final_path_segment (common_prefixes (s3 b p))"
    by (simp add: list_s3_leaf_directories_def common_prefixes_def directory_name_final_segment)
  moreover have "list_s3_leaf_directories (\<lambda>b p. (s3 b p)\<lparr>Contents := ks\<rparr>) b p
       = list_s3_leaf_directories s3 b p"
    by (simp add: list_s3_leaf_directories_def)
  ultimately show ?thesis
    using leaf_directories_of_children [of s3 b p names] by blast
qed

text \<open>The listing of three adapter directories with the manifest file beside them.\<close>

theorem leaf_directory_is_final_segment_witness:
  "common_prefixes (sample_s3 ''bucket'' ''vllm/mistral-adapters/'')
     = map (child_prefix ''vllm/mistral-adapters/'') [''1'', ''2'', ''3'']
   \<and> Contents (sample_s3 ''bucket'' ''vllm/mistral-adapters/'')
     = [''vllm/mistral-adapters/lora_modules.txt'']
   \<and> list_s3_leaf_directories sample_s3 ''bucket'' ''vllm/mistral-adapters/'' = [''1'', ''2'', ''3'']
   \<and> map final_path_segment (common_prefixes (sample_s3 ''bucket'' ''vllm/mistral-adapters/''))
     = [''1'', ''2'', ''3'']"
proof -
  let ?p = "''vllm/mistral-adapters/''"
  note t = leaf_directory_is_final_segment [of sample_s3 "''bucket''" ?p "[''1'', ''2'', ''3'']"]
  have cp: "common_prefixes (sample_s3 ''bucket'' ?p) = map (child_prefix ?p) [''1'', ''2'', ''3'']"
    by (simp add: sample_s3_def common_prefixes_def)
  have ks: "Contents (sample_s3 ''bucket'' ?p) = [''vllm/mistral-adapters/lora_modules.txt'']"
    by (simp add: sample_s3_def)
  have wf: "(?p = [] \<or> last ?p = CHR ''/'')
            \<and> (\<forall>n \<in> set [''1'', ''2'', ''3'']. n \<noteq> [] \<and> CHR ''/'' \<notin> set n)"
    by simp
  have ids: "list_s3_leaf_directories sample_s3 ''bucket'' ?p = [''1'', ''2'', ''3'']"
    using t cp wf by blast
  have "map final_path_segment (common_prefixes (sample_s3 ''bucket'' ?p)) = [''1'', ''2'', ''3'']"
    using t ids by metis
  with cp ks ids show ?thesis by blast
qed

lemma split_words_plain:
  "\<forall>c \<in> set t. \<not> sep c \<Longrightarrow> split_words sep cur t = (if cur @ t = [] then [] else [cur @ t])"
  by (induction t arbitrary: cur) auto

lemma split_words_token:
  "t \<noteq> [] \<Longrightarrow> CHR '' '' \<notin> set t \<Longrightarrow> split_words (\<lambda>c. c = CHR '' '') [] t = [t]"
  using split_words_plain [of t "\<lambda>c. c = CHR '' ''" "[]"] by auto

lemma space_tokens_join:
  "\<forall>t \<in> set ts. t \<noteq> [] \<and> CHR '' '' \<notin> set t \<Longrightarrow> space_tokens (str_join '' '' ts) = ts"
proof (induction "'' ''" ts rule: str_join.induct)
  case 1
  then show ?case by (simp add: space_tokens_def)
next
  case (2 x)
  then show ?case by (simp add: space_tokens_def split_words_token)
next
  case (3 x y ys)
  have "split_words (\<lambda>c. c = CHR '' '') [] (x @ CHR '' '' # str_join '' '' (y # ys))
        = split_words (\<lambda>c. c = CHR '' '') [] x @ split_words (\<lambda>c. c = CHR '' '') [] (str_join '' '' (y # ys))"
    by (rule split_words_sep) simp
  with 3 show ?case by (simp add: space_tokens_def split_words_token)
qed

lemma set_str_join: "set (str_join sep ts) \<subseteq> set sep \<union> \<Union> (set ` set ts)"
  by (induction sep ts rule: str_join.induct) auto

lemma str_join_not_Nil: "ts \<noteq> [] \<Longrightarrow> last ts \<noteq> [] \<Longrightarrow> str_join sep ts \<noteq> []"
  by (induction sep ts rule: str_join.induct) auto

lemma last_str_join:
  "ts \<noteq> [] \<Longrightarrow> last ts \<noteq> [] \<Longrightarrow> last (str_join sep ts) = last (last ts)"
proof (induction sep ts rule: str_join.induct)
  case (3 sep x y ys)
  then have "str_join sep (y # ys) \<noteq> []" by (intro str_join_not_Nil) auto
  with 3 show ?case by simp
qed auto

lemma manifest_token_plain:
  "CHR '' '' \<notin> set d \<Longrightarrow> manifest_token d \<noteq> [] \<and> CHR '' '' \<notin> set (manifest_token d)"
  by (simp add: manifest_token_def)

text \<open>
  Claim C4, as the code has it. When no derived identifier contains a space or a line
  break, the manifest of a listing with \<open>A\<close> child prefixes is one line of exactly \<open>A\<close>
  space-separated tokens, the token of identifier \<open>d\<close> being \<open>d=/opt/ml/model/d/\<close>, in the
  order of the listing; the line ends in \<open>/\<close>, so that no delimiter trails (and it is
  empty for an empty listing). When the child prefixes are the listed prefix followed by
  pairwise distinct non-empty names and the delimiter, the identifiers are these names, and
  none appears twice.
\<close>

theorem manifest_tokens:
  assumes "\<forall>d \<in> set (list_s3_leaf_directories s3 b p). CHR '' '' \<notin> set d \<and> CHR 0x0A \<notin> set d"
  shows "space_tokens (vllm_arg_pattern (list_s3_leaf_directories s3 b p))
           = map (\<lambda>d. d @ ''='' @ ''/opt/ml/model/'' @ d @ ''/'') (list_s3_leaf_directories s3 b p)
         \<and> length (space_tokens (vllm_arg_pattern (list_s3_leaf_directories s3 b p)))
           = length (common_prefixes (s3 b p))
         \<and> CHR 0x0A \<notin> set (vllm_arg_pattern (list_s3_leaf_directories s3 b p))
         \<and> (common_prefixes (s3 b p) \<noteq> []
              \<longrightarrow> last (vllm_arg_pattern (list_s3_leaf_directories s3 b p)) = CHR ''/'')
         \<and> (common_prefixes (s3 b p) = []
              \<longrightarrow> vllm_arg_pattern (list_s3_leaf_directories s3 b p) = [])
         \<and> (common_prefixes (s3 b p) = map (child_prefix p) names \<and> distinct names
              \<and> (p = [] \<or> last p = CHR ''/'')
              \<and> (\<forall>n \<in> set names. n \<noteq> [] \<and> CHR ''/'' \<notin> set n)
              \<longrightarrow> list_s3_leaf_directories s3 b p = names
                  \<and> distinct (list_s3_leaf_directories s3 b p))"
proof -
  let ?ids = "list_s3_leaf_directories s3 b p"
  let ?ts = "map manifest_token ?ids"
  have len: "length ?ids = length (common_prefixes (s3 b p))"
    by (simp add: list_s3_leaf_directories_def common_prefixes_def)
  have "\<forall>t \<in> set ?ts. t \<noteq> [] \<and> CHR '' '' \<notin> set t"
    using assms manifest_token_plain by auto
  then have toks: "space_tokens (vllm_arg_pattern ?ids) = ?ts"
    unfolding vllm_arg_pattern_def by (rule space_tokens_join)
  have form: "?ts = map (\<lambda>d. d @ ''='' @ ''/opt/ml/model/'' @ d @ ''/'') ?ids"
    by (simp add: manifest_token_def)
  have "\<forall>t \<in> set ?ts. CHR 0x0A \<notin> set t"
    using assms by (auto simp: manifest_token_def)
  then have nl: "CHR 0x0A \<notin> set (vllm_arg_pattern ?ids)"
    using set_str_join [of "'' ''" ?ts] unfolding vllm_arg_pattern_def by auto
  have lst: "last (vllm_arg_pattern ?ids) = CHR ''/''" if "common_prefixes (s3 b p) \<noteq> []"
  proof -
    from that len have ne: "?ts \<noteq> []" by auto
    then have "last ?ts = manifest_token (last ?ids)" by (simp add: last_map)
    then have "last ?ts \<noteq> [] \<and> last (last ?ts) = CHR ''/''"
      by (simp add: manifest_token_def)
    then show ?thesis
      using last_str_join [OF ne] unfolding vllm_arg_pattern_def by simp
  qed
  have emp: "vllm_arg_pattern ?ids = []" if "common_prefixes (s3 b p) = []"
    using that len by (simp add: vllm_arg_pattern_def)
  have dist: "?ids = names \<and> distinct ?ids"
    if "common_prefixes (s3 b p) = map (child_prefix p) names \<and> distinct names
        \<and> (p = [] \<or> last p = CHR ''/'')
        \<and> (\<forall>n \<in> set names. n \<noteq> [] \<and> CHR ''/'' \<notin> set n)"
    using that leaf_directories_of_children [of s3 b p names] by simp
  have cnt: "length (space_tokens (vllm_arg_pattern ?ids)) = length (common_prefixes (s3 b p))"
    using toks len by simp
  from toks form have "space_tokens (vllm_arg_pattern ?ids)
      = map (\<lambda>d. d @ ''='' @ ''/opt/ml/model/'' @ d @ ''/'') ?ids" by simp
  with cnt nl lst emp dist show ?thesis by blast
qed

lemma sample_leaf_directories:
  "list_s3_leaf_directories sample_s3 ''bucket'' ''vllm/mistral-adapters/'' = [''1'', ''2'', ''3'']"
  by (simp add: list_s3_leaf_directories_def sample_s3_def child_prefix_def directory_name_def
      rstrip_def rsplit1_def)

text \<open>The manifest of the listing of three adapter directories.\<close>

theorem manifest_tokens_witness:
  "vllm_arg_pattern (list_s3_leaf_directories sample_s3 ''bucket'' ''vllm/mistral-adapters/'')
     = ''1=/opt/ml/model/1/ 2=/opt/ml/model/2/ 3=/opt/ml/model/3/''
   \<and> space_tokens (vllm_arg_pattern (list_s3_leaf_directories sample_s3 ''bucket'' ''vllm/mistral-adapters/''))
     = [''1=/opt/ml/model/1/'', ''2=/opt/ml/model/2/'', ''3=/opt/ml/model/3/'']
   \<and> length (common_prefixes (sample_s3 ''bucket'' ''vllm/mistral-adapters/'')) = 3
   \<and> distinct (list_s3_leaf_directories sample_s3 ''bucket'' ''vllm/mistral-adapters/'')"
proof -
  let ?p = "''vllm/mistral-adapters/''"
  let ?ids = "list_s3_leaf_directories sample_s3 ''bucket'' ?p"
  have ok: "\<forall>d \<in> set ?ids. CHR '' '' \<notin> set d \<and> CHR 0x0A \<notin> set d"
    by (simp add: sample_leaf_directories)
  note t = manifest_tokens [OF ok, of "[''1'', ''2'', ''3'']"]
  have m: "vllm_arg_pattern ?ids = ''1=/opt/ml/model/1/ 2=/opt/ml/model/2/ 3=/opt/ml/model/3/''"
    by (simp add: sample_leaf_directories vllm_arg_pattern_def manifest_token_def)
  have cp: "common_prefixes (sample_s3 ''bucket'' ?p) = map (child_prefix ?p) [''1'', ''2'', ''3'']"
    by (simp add: sample_s3_def common_prefixes_def)
  have wf: "distinct [''1'', ''2'', ''3''] \<and> (?p = [] \<or> last ?p = CHR ''/'')
            \<and> (\<forall>n \<in> set [''1'', ''2'', ''3'']. n \<noteq> [] \<and> CHR ''/'' \<notin> set n)"
    by simp
  have d: "distinct ?ids" using t cp wf by blast
  have "space_tokens (vllm_arg_pattern ?ids)
        = map (\<lambda>d. d @ ''='' @ ''/opt/ml/model/'' @ d @ ''/'') ?ids"
    using t by blast
  then have "space_tokens (vllm_arg_pattern ?ids)
        = [''1=/opt/ml/model/1/'', ''2=/opt/ml/model/2/'', ''3=/opt/ml/model/3/'']"
    by (simp add: sample_leaf_directories)
  with m d cp show ?thesis by simp
qed

text \<open>
  Nothing quotes or rejects an identifier: one child prefix whose name contains a space
  gives a manifest of three space-separated tokens, none of them of the form
  \<open>identifier=path\<close> for the identifier listed.
\<close>

theorem manifest_tokens_space_counterexample:
  "length (common_prefixes (spaced_s3 ''bucket'' ''adapters/'')) = 1
   \<and> list_s3_leaf_directories spaced_s3 ''bucket'' ''adapters/'' = [''my adapter'']
   \<and> space_tokens (vllm_arg_pattern (list_s3_leaf_directories spaced_s3 ''bucket'' ''adapters/''))
     = [''my'', ''adapter=/opt/ml/model/my'', ''adapter/'']"
  by (simp add: list_s3_leaf_directories_def spaced_s3_def child_prefix_def directory_name_def
      rstrip_def rsplit1_def common_prefixes_def vllm_arg_pattern_def manifest_token_def
      space_tokens_def)

section \<open>Properties of the benchmark harness\<close>

subsection \<open>Steps\<close>

lemma sum_list_map_update:
  fixes f :: "'a \<Rightarrow> nat"
  shows "i < length xs \<Longrightarrow> sum_list (map f (xs[i := y])) + f (xs ! i) = sum_list (map f xs) + f y"
proof (induction xs arbitrary: i)
  case Nil
  then show ?case by simp
next
  case (Cons x xs)
  then show ?case by (cases i) auto
qed

lemma sum_list_int_update:
  fixes xs :: "int list"
  shows "k < length xs \<Longrightarrow> sum_list (xs[k := xs ! k - 1]) = sum_list xs - 1"
proof (induction xs arbitrary: k)
  case Nil
  then show ?case by simp
next
  case (Cons x xs)
  then show ?case by (cases k) auto
qed

lemma remaining_pick:
  assumes "remaining_adapters cs \<noteq> []"
  shows "remaining_adapters cs ! (r mod length (remaining_adapters cs)) < length cs
         \<and> 0 < cs ! (remaining_adapters cs ! (r mod length (remaining_adapters cs)))"
proof -
  have "remaining_adapters cs ! (r mod length (remaining_adapters cs)) \<in> set (remaining_adapters cs)"
    using assms by (intro nth_mem) simp
  then show ?thesis by (simp add: remaining_adapters_def)
qed

lemma remaining_Nil: "remaining_adapters cs = [] \<longleftrightarrow> list_all (\<lambda>c. c \<le> 0) cs"
  by (auto simp: remaining_adapters_def filter_empty_conv list_all_length not_less)

text \<open>The critical section, case by case.\<close>

lemma critical_section_cases:
  obtains (break) "critical_section single r h = (None, h)"
      "if single then total_requests h \<le> 0 else list_all (\<lambda>c. c \<le> 0) (adapter_counters h)"
  | (one) "single" "0 < total_requests h"
      "critical_section single r h = (Some 1, h\<lparr>total_requests := total_requests h - 1\<rparr>)"
  | (random) k where "\<not> single" "k < length (adapter_counters h)" "0 < adapter_counters h ! k"
      "critical_section single r h =
         (Some (int k + 1), h\<lparr>adapter_counters := (adapter_counters h)[k := adapter_counters h ! k - 1]\<rparr>)"
proof (cases single)
  case True
  then show ?thesis using break one by (cases "0 < total_requests h") (auto simp: critical_section_def)
next
  case False
  show ?thesis
  proof (cases "remaining_adapters (adapter_counters h) = []")
    case True
    with False show ?thesis using break by (simp add: critical_section_def remaining_Nil)
  next
    case ne: False
    let ?k = "remaining_adapters (adapter_counters h) ! (r mod length (remaining_adapters (adapter_counters h)))"
    from remaining_pick [OF ne, of r] False ne show ?thesis
      using random [of ?k] by (simp add: critical_section_def Let_def)
  qed
qed

text \<open>A step, case by case.\<close>

lemma step_cases:
  obtains (idle) "\<not> enabled e h" "step e h = h"
  | (leave) i r w where "e = (i, Lock r)" "i < length (workers h)" "w = workers h ! i"
      "phase w = AtLock"
      "if single_adapter w then total_requests h \<le> 0
       else list_all (\<lambda>c. c \<le> 0) (adapter_counters h)"
      "step e h = h\<lparr>workers := (workers h)[i := w\<lparr>phase := Exited,
                     aggregate_latency := aggregate_latency w @ latencies w\<rparr>]\<rparr>"
  | (claim_one) i r w where "e = (i, Lock r)" "i < length (workers h)" "w = workers h ! i"
      "phase w = AtLock" "single_adapter w" "0 < total_requests h"
      "step e h = h\<lparr>total_requests := total_requests h - 1,
                    workers := (workers h)[i := w\<lparr>phase := Calling 1\<rparr>],
                    sent := sent h @ [payload_adapter 1]\<rparr>"
  | (claim_random) i r w k where "e = (i, Lock r)" "i < length (workers h)" "w = workers h ! i"
      "phase w = AtLock" "\<not> single_adapter w"
      "k < length (adapter_counters h)" "0 < adapter_counters h ! k"
      "step e h = h\<lparr>adapter_counters := (adapter_counters h)[k := adapter_counters h ! k - 1],
                    workers := (workers h)[i := w\<lparr>phase := Calling (int k + 1)\<rparr>],
                    sent := sent h @ [payload_adapter (int k + 1)]\<rparr>"
  | (return) i l w a where "e = (i, Return l)" "i < length (workers h)" "w = workers h ! i"
      "phase w = Calling a"
      "step e h = h\<lparr>workers := (workers h)[i := w\<lparr>phase := AtLock, latencies := latencies w @ [l]\<rparr>]\<rparr>"
  | (raise) i w a where "e = (i, Raise)" "i < length (workers h)" "w = workers h ! i"
      "phase w = Calling a"
      "step e h = h\<lparr>workers := (workers h)[i := w\<lparr>phase := Crashed\<rparr>]\<rparr>"
proof -
  obtain i ev where e: "e = (i, ev)" by (cases e)
  show ?thesis
  proof (cases "enabled e h")
    case False
    then have "step e h = h"
      unfolding e enabled_def step_def
      by (cases ev; cases "phase (workers h ! i)") auto
    with False show ?thesis by (rule idle)
  next
    case True
    then have i: "i < length (workers h)" and f: "fits (phase (workers h ! i)) ev"
      by (simp_all add: e enabled_def)
    let ?w = "workers h ! i"
    show ?thesis
    proof (cases ev)
      case (Lock r)
      with f have p: "phase ?w = AtLock" by (cases "phase ?w") auto
      show ?thesis
      proof (cases rule: critical_section_cases [of "single_adapter ?w" r h])
        case break
        then show ?thesis
          using leave [of i r ?w] e Lock i p by (simp add: step_def set_worker_def)
      next
        case one
        then show ?thesis
          using claim_one [of i r ?w] e Lock i p by (simp add: step_def set_worker_def)
      next
        case (random k)
        then show ?thesis
          using claim_random [of i r ?w k] e Lock i p by (simp add: step_def set_worker_def)
      qed
    next
      case (Return l)
      with f obtain a where p: "phase ?w = Calling a" by (cases "phase ?w") auto
      then show ?thesis
        using return [of i l ?w a] e Return i by (simp add: step_def set_worker_def)
    next
      case Raise
      with f obtain a where p: "phase ?w = Calling a" by (cases "phase ?w") auto
      then show ?thesis
        using raise [of i ?w a] e Raise i by (simp add: step_def set_worker_def)
    qed
  qed
qed

subsection \<open>Invariants of a step\<close>

lemma step_workers:
  "length (workers (step e h)) = length (workers h)
   \<and> map single_adapter (workers (step e h)) = map single_adapter (workers h)
   \<and> num_threads (step e h) = num_threads h"
  by (cases e h rule: step_cases) (auto simp: map_update list_update_same_conv)

lemma step_counters_nonneg: "counters_nonneg h \<Longrightarrow> counters_nonneg (step e h)"
proof (cases e h rule: step_cases)
  case (claim_random i r w k)
  assume "counters_nonneg h"
  then show ?thesis
    using claim_random by (auto simp: counters_nonneg_def list_all_length nth_list_update)
qed (auto simp: counters_nonneg_def)

lemma step_monotone:
  "total_requests (step e h) \<le> total_requests h
   \<and> length (adapter_counters (step e h)) = length (adapter_counters h)
   \<and> (\<forall>k < length (adapter_counters h). adapter_counters (step e h) ! k \<le> adapter_counters h ! k)"
  by (cases e h rule: step_cases) (auto simp: nth_list_update)

lemma step_conserved:
  "int (length (sent (step e h))) + total_requests (step e h) + sum_list (adapter_counters (step e h))
   = int (length (sent h)) + total_requests h + sum_list (adapter_counters h)"
  by (cases e h rule: step_cases) (auto simp: sum_list_int_update)

lemma step_single_only:
  "list_all single_adapter (workers h) \<Longrightarrow>
     adapter_counters (step e h) = adapter_counters h
     \<and> (\<exists>n. sent (step e h) = sent h @ replicate n (payload_adapter 1))"
proof (cases e h rule: step_cases)
  case (claim_one i r w)
  then have "sent (step e h) = sent h @ replicate 1 (payload_adapter 1)"
    and "adapter_counters (step e h) = adapter_counters h" by simp_all
  then show ?thesis by blast
next
  case (claim_random i r w k)
  assume "list_all single_adapter (workers h)"
  with claim_random show ?thesis by (auto simp: list_all_length)
qed (auto intro: exI [of _ 0])

lemma step_distributed_only:
  "list_all (\<lambda>w. \<not> single_adapter w) (workers h) \<Longrightarrow> total_requests (step e h) = total_requests h"
proof (cases e h rule: step_cases)
  case (claim_one i r w)
  assume "list_all (\<lambda>w. \<not> single_adapter w) (workers h)"
  with claim_one show ?thesis by (auto simp: list_all_length)
qed auto

lemma step_calls_of:
  "length (sent (step e h)) + calls_of h = length (sent h) + calls_of (step e h)"
proof (cases e h rule: step_cases)
  case idle
  then show ?thesis by simp
next
  case (leave i r w)
  then show ?thesis
    using sum_list_map_update [of i "workers h" "\<lambda>w. length (latencies w) + in_flight w"
        "w\<lparr>phase := Exited, aggregate_latency := aggregate_latency w @ latencies w\<rparr>"]
    by (simp add: calls_of_def in_flight_def)
next
  case (claim_one i r w)
  then show ?thesis
    using sum_list_map_update [of i "workers h" "\<lambda>w. length (latencies w) + in_flight w"
        "w\<lparr>phase := Calling 1\<rparr>"]
    by (simp add: calls_of_def in_flight_def)
next
  case (claim_random i r w k)
  then show ?thesis
    using sum_list_map_update [of i "workers h" "\<lambda>w. length (latencies w) + in_flight w"
        "w\<lparr>phase := Calling (int k + 1)\<rparr>"]
    by (simp add: calls_of_def in_flight_def)
next
  case (return i l w a)
  then show ?thesis
    using sum_list_map_update [of i "workers h" "\<lambda>w. length (latencies w) + in_flight w"
        "w\<lparr>phase := AtLock, latencies := latencies w @ [l]\<rparr>"]
    by (simp add: calls_of_def in_flight_def)
next
  case (raise i w a)
  then show ?thesis
    using sum_list_map_update [of i "workers h" "\<lambda>w. length (latencies w) + in_flight w"
        "w\<lparr>phase := Crashed\<rparr>"]
    by (simp add: calls_of_def in_flight_def)
qed

lemma step_work_left: "enabled e h \<Longrightarrow> work_left (step e h) < work_left h"
proof (cases e h rule: step_cases)
  case idle
  assume "enabled e h"
  with idle show ?thesis by simp
next
  case (leave i r w)
  then show ?thesis
    using sum_list_map_update [of i "workers h" phase_weight
        "w\<lparr>phase := Exited, aggregate_latency := aggregate_latency w @ latencies w\<rparr>"]
    by (simp add: work_left_def phase_weight_def)
next
  case (claim_one i r w)
  then show ?thesis
    using sum_list_map_update [of i "workers h" phase_weight "w\<lparr>phase := Calling 1\<rparr>"]
    by (simp add: work_left_def phase_weight_def)
next
  case (claim_random i r w k)
  have "sum_list (map nat ((adapter_counters h)[k := adapter_counters h ! k - 1]))
          + nat (adapter_counters h ! k)
        = sum_list (map nat (adapter_counters h)) + nat (adapter_counters h ! k - 1)"
    using sum_list_map_update [of k "adapter_counters h" nat "adapter_counters h ! k - 1"]
      claim_random by simp
  with claim_random show ?thesis
    using sum_list_map_update [of i "workers h" phase_weight "w\<lparr>phase := Calling (int k + 1)\<rparr>"]
    by (simp add: work_left_def phase_weight_def)
next
  case (return i l w a)
  then show ?thesis
    using sum_list_map_update [of i "workers h" phase_weight
        "w\<lparr>phase := AtLock, latencies := latencies w @ [l]\<rparr>"]
    by (simp add: work_left_def phase_weight_def)
next
  case (raise i w a)
  then show ?thesis
    using sum_list_map_update [of i "workers h" phase_weight "w\<lparr>phase := Crashed\<rparr>"]
    by (simp add: work_left_def phase_weight_def)
qed

lemma nonpos_update:
  "list_all (\<lambda>c. c \<le> (0::int)) cs \<Longrightarrow> list_all (\<lambda>c. c \<le> 0) (cs[k := cs ! k - 1])"
  by (cases "k < length cs") (auto simp: list_all_length nth_list_update)

lemma list_all_update_weaken:
  "list_all P xs \<Longrightarrow> (\<And>x. P x \<Longrightarrow> Q x) \<Longrightarrow> Q y \<Longrightarrow> list_all Q (xs[i := y])"
  by (cases "i < length xs") (auto simp: list_all_length nth_list_update)

lemma step_exit_justified:
  assumes "exit_justified h"
  shows "exit_justified (step e h)"
proof -
  let ?J = "\<lambda>h w. phase w = Exited \<longrightarrow>
        (single_adapter w \<longrightarrow> total_requests h \<le> 0)
        \<and> (\<not> single_adapter w \<longrightarrow> list_all (\<lambda>c. c \<le> 0) (adapter_counters h))"
  have old: "list_all (?J h) (workers h)"
    using assms by (simp add: exit_justified_def)
  show ?thesis
  proof (cases e h rule: step_cases)
    case idle
    with assms show ?thesis by simp
  next
    case (leave i r w)
    have "list_all (?J h) ((workers h)[i := w\<lparr>phase := Exited,
                     aggregate_latency := aggregate_latency w @ latencies w\<rparr>])"
      using old by (rule list_all_update_weaken) (use leave(5) in \<open>auto split: if_splits\<close>)
    with leave show ?thesis by (simp add: exit_justified_def)
  next
    case (claim_one i r w)
    let ?h' = "h\<lparr>total_requests := total_requests h - 1\<rparr>"
    have "list_all (?J ?h') ((workers h)[i := w\<lparr>phase := Calling 1\<rparr>])"
      using old by (rule list_all_update_weaken) (auto split: if_splits)
    with claim_one show ?thesis by (simp add: exit_justified_def)
  next
    case (claim_random i r w k)
    let ?h' = "h\<lparr>adapter_counters := (adapter_counters h)[k := adapter_counters h ! k - 1]\<rparr>"
    have "list_all (?J ?h') ((workers h)[i := w\<lparr>phase := Calling (int k + 1)\<rparr>])"
      using old by (rule list_all_update_weaken) (auto split: if_splits simp: nonpos_update)
    with claim_random show ?thesis by (simp add: exit_justified_def)
  next
    case (return i l w a)
    have "list_all (?J h) ((workers h)[i := w\<lparr>phase := AtLock, latencies := latencies w @ [l]\<rparr>])"
      using old by (rule list_all_update_weaken) simp_all
    with return show ?thesis by (simp add: exit_justified_def)
  next
    case (raise i w a)
    have "list_all (?J h) ((workers h)[i := w\<lparr>phase := Crashed\<rparr>])"
      using old by (rule list_all_update_weaken) simp_all
    with raise show ?thesis by (simp add: exit_justified_def)
  qed
qed

lemma step_merged: "list_all merged (workers h) \<Longrightarrow> list_all merged (workers (step e h))"
  by (cases e h rule: step_cases)
    (auto simp: merged_def list_all_length nth_list_update split: if_splits)

lemma progress: "\<not> joined h \<Longrightarrow> \<exists>e. enabled e h"
proof -
  assume "\<not> joined h"
  then obtain i where i: "i < length (workers h)" and n: "\<not> ended (workers h ! i)"
    by (auto simp: joined_def list_all_length)
  show ?thesis
  proof (cases "phase (workers h ! i)")
    case AtLock
    with i have "enabled (i, Lock 0) h" by (simp add: enabled_def)
    then show ?thesis ..
  next
    case (Calling a)
    with i have "enabled (i, Return 0) h" by (simp add: enabled_def)
    then show ?thesis ..
  next
    case Exited
    with n show ?thesis by (simp add: ended_def)
  next
    case Crashed
    with n show ?thesis by (simp add: ended_def)
  qed
qed

subsection \<open>Invariants of a schedule\<close>

lemma exec_workers:
  "length (workers (exec sched h)) = length (workers h)
   \<and> map single_adapter (workers (exec sched h)) = map single_adapter (workers h)
   \<and> num_threads (exec sched h) = num_threads h"
  by (induction sched arbitrary: h) (simp_all add: step_workers)

lemma exec_counters_nonneg: "counters_nonneg h \<Longrightarrow> counters_nonneg (exec sched h)"
  by (induction sched arbitrary: h) (simp_all add: step_counters_nonneg)

lemma exec_conserved:
  "int (length (sent (exec sched h))) + total_requests (exec sched h)
     + sum_list (adapter_counters (exec sched h))
   = int (length (sent h)) + total_requests h + sum_list (adapter_counters h)"
  by (induction sched arbitrary: h) (simp_all add: step_conserved)

lemma exec_calls_of:
  "length (sent (exec sched h)) + calls_of h = length (sent h) + calls_of (exec sched h)"
proof (induction sched arbitrary: h)
  case Nil
  then show ?case by simp
next
  case (Cons e es)
  from Cons [of "step e h"] step_calls_of [of e h] show ?case by simp
qed

lemma exec_exit_justified: "exit_justified h \<Longrightarrow> exit_justified (exec sched h)"
  by (induction sched arbitrary: h) (simp_all add: step_exit_justified)

lemma exec_merged: "list_all merged (workers h) \<Longrightarrow> list_all merged (workers (exec sched h))"
  by (induction sched arbitrary: h) (simp_all add: step_merged)

lemma exec_work_left: "valid_schedule sched h \<Longrightarrow> length sched + work_left (exec sched h) \<le> work_left h"
proof (induction sched arbitrary: h)
  case Nil
  then show ?case by simp
next
  case (Cons e es)
  then have "length es + work_left (exec es (step e h)) \<le> work_left (step e h)"
    and "work_left (step e h) < work_left h"
    by (simp_all add: step_work_left)
  then show ?case by simp
qed

lemma single_adapter_preserved:
  "list_all (\<lambda>w. P (single_adapter w)) (workers (step e h))
   = list_all (\<lambda>w. P (single_adapter w)) (workers h)"
proof -
  have "list_all P (map single_adapter (workers (step e h)))
        = list_all P (map single_adapter (workers h))"
    by (simp add: step_workers)
  then show ?thesis by (simp add: list.pred_map comp_def)
qed

lemma exec_single_only:
  "list_all single_adapter (workers h) \<Longrightarrow>
     adapter_counters (exec sched h) = adapter_counters h
     \<and> (\<exists>n. sent (exec sched h) = sent h @ replicate n (payload_adapter 1))"
proof (induction sched arbitrary: h)
  case Nil
  then show ?case by (auto intro: exI [of _ 0])
next
  case (Cons e es)
  have "list_all single_adapter (workers (step e h))"
    using Cons.prems single_adapter_preserved [of "\<lambda>b. b" e h] by simp
  from Cons.IH [OF this] step_single_only [OF Cons.prems, of e]
  obtain n m where "adapter_counters (exec es (step e h)) = adapter_counters h"
    and "sent (exec es (step e h)) = (sent h @ replicate m (payload_adapter 1)) @ replicate n (payload_adapter 1)"
    by auto
  then have "adapter_counters (exec (e # es) h) = adapter_counters h"
    and "sent (exec (e # es) h) = sent h @ replicate (m + n) (payload_adapter 1)"
    by (simp_all add: replicate_add)
  then show ?case by blast
qed

lemma exec_distributed_only:
  "list_all (\<lambda>w. \<not> single_adapter w) (workers h) \<Longrightarrow> total_requests (exec sched h) = total_requests h"
proof (induction sched arbitrary: h)
  case Nil
  then show ?case by simp
next
  case (Cons e es)
  have "list_all (\<lambda>w. \<not> single_adapter w) (workers (step e h))"
    using Cons.prems single_adapter_preserved [of "\<lambda>b. \<not> b" e h] by simp
  from Cons.IH [OF this] step_distributed_only [OF Cons.prems, of e] show ?case by simp
qed

subsection \<open>The start and the end of a run\<close>

lemma benchmark_start_facts:
  "workers (benchmark_start single h) = replicate (nat (num_threads h)) (new_worker single)"
  "total_requests (benchmark_start single h) = total_requests h"
  "adapter_counters (benchmark_start single h) = adapter_counters h"
  "sent (benchmark_start single h) = sent h"
  "num_threads (benchmark_start single h) = num_threads h"
  by (simp_all add: benchmark_start_def)

lemma new_worker_facts:
  "single_adapter (new_worker single) = single" "phase (new_worker single) = AtLock"
  "latencies (new_worker single) = []" "aggregate_latency (new_worker single) = []"
  "in_flight (new_worker single) = 0" "phase_weight (new_worker single) = 1"
  "merged (new_worker single)"
  by (simp_all add: new_worker_def in_flight_def phase_weight_def merged_def)

lemma benchmark_start_invariants:
  "calls_of (benchmark_start single h) = 0"
  "exit_justified (benchmark_start single h)"
  "list_all merged (workers (benchmark_start single h))"
  "list_all (\<lambda>w. single_adapter w = single) (workers (benchmark_start single h))"
  "sum_list (map phase_weight (workers (benchmark_start single h))) = nat (num_threads h)"
  "counters_nonneg (benchmark_start single h) = counters_nonneg h"
proof -
  let ?ws = "replicate (nat (num_threads h)) (new_worker single)"
  have ws: "workers (benchmark_start single h) = ?ws"
    by (simp add: benchmark_start_def)
  show "calls_of (benchmark_start single h) = 0"
    unfolding calls_of_def ws by (simp add: new_worker_facts)
  show "exit_justified (benchmark_start single h)"
    unfolding exit_justified_def ws by (simp add: list_all_iff new_worker_facts)
  show "list_all merged (workers (benchmark_start single h))"
    unfolding ws by (simp add: list_all_iff new_worker_facts)
  show "list_all (\<lambda>w. single_adapter w = single) (workers (benchmark_start single h))"
    unfolding ws by (simp add: list_all_iff new_worker_facts)
  show "sum_list (map phase_weight (workers (benchmark_start single h))) = nat (num_threads h)"
    unfolding ws by (simp add: new_worker_facts sum_list_replicate)
  show "counters_nonneg (benchmark_start single h) = counters_nonneg h"
    by (simp add: counters_nonneg_def benchmark_start_def)
qed

lemma configure_facts:
  assumes "configure T A W = Inr h0"
  shows "total_requests h0 = T" "adapter_counters h0 = replicate (nat A) (T div A)"
    "num_threads h0 = W" "num_adapters h0 = A" "workers h0 = []" "sent h0 = []" "A \<noteq> 0"
  using assms by (auto simp: configure_def split: if_splits)

lemma configure_nonneg:
  assumes "configure T A W = Inr h0" "0 \<le> T"
  shows "counters_nonneg h0"
proof (cases "0 < A")
  case True
  with assms(2) have "0 \<le> T div A" by (simp add: pos_imp_zdiv_nonneg_iff)
  then show ?thesis
    using configure_facts [OF assms(1)] assms(2) by (simp add: counters_nonneg_def list_all_length)
next
  case False
  then show ?thesis
    using configure_facts [OF assms(1)] assms(2) by (simp add: counters_nonneg_def)
qed

lemma all_exited_counts:
  assumes "all_exited s" "list_all merged (workers s)"
  shows "total_requests_made s = calls_of s" "all_latencies s = map latencies (workers s)"
proof -
  have w: "\<And>w. w \<in> set (workers s) \<Longrightarrow> phase w = Exited \<and> aggregate_latency w = latencies w"
    using assms by (simp add: all_exited_def merged_def list_all_iff)
  have "map aggregate_latency (workers s) = map latencies (workers s)"
    by (rule map_cong) (simp_all add: w)
  then show "all_latencies s = map latencies (workers s)"
    by (simp add: all_latencies_def)
  have "map (\<lambda>w. length (aggregate_latency w)) (workers s)
        = map (\<lambda>w. length (latencies w) + in_flight w) (workers s)"
    by (rule map_cong) (simp_all add: w in_flight_def)
  then have "sum_list (map (\<lambda>w. length (aggregate_latency w)) (workers s))
        = sum_list (map (\<lambda>w. length (latencies w) + in_flight w) (workers s))"
    by (rule arg_cong)
  then show "total_requests_made s = calls_of s"
    by (simp add: total_requests_made_def calls_of_def all_latencies_def comp_def)
qed

lemma work_left_lower: "2 * sum_list (map nat (adapter_counters h)) \<le> work_left h"
  "2 * nat (total_requests h) \<le> work_left h"
  by (simp_all add: work_left_def)

lemma nonneg_nonpos_sum:
  "list_all (\<lambda>c. 0 \<le> c) cs \<Longrightarrow> list_all (\<lambda>c. c \<le> (0::int)) cs \<Longrightarrow> sum_list cs = 0"
  by (induction cs) auto

lemma sum_list_nat_replicate: "0 \<le> c \<Longrightarrow> int (sum_list (map nat (replicate n c))) = int n * c"
  by (induction n) (auto simp: algebra_simps)

lemma run_calls:
  assumes "all_exited (run_scenario single sched h)"
  shows "length (sent (run_scenario single sched h))
         = length (sent h) + total_requests_made (run_scenario single sched h)"
    and "all_latencies (run_scenario single sched h)
         = map latencies (workers (run_scenario single sched h))"
proof -
  let ?b = "benchmark_start single h"
  let ?s = "run_scenario single sched h"
  have m: "list_all merged (workers ?s)"
    unfolding run_scenario_def by (rule exec_merged) (rule benchmark_start_invariants)
  from exec_calls_of [where sched = sched and h = "?b"] have "length (sent ?s) = length (sent h) + calls_of ?s"
    by (simp add: run_scenario_def benchmark_start_invariants benchmark_start_facts)
  then show "length (sent ?s) = length (sent h) + total_requests_made ?s"
    using all_exited_counts(1) [OF assms m] by simp
  show "all_latencies ?s = map latencies (workers ?s)"
    using all_exited_counts(2) [OF assms m] .
qed

lemma run_some_exited:
  assumes "0 < num_threads h" "all_exited (run_scenario single sched h)"
  shows "\<exists>w \<in> set (workers (run_scenario single sched h)). phase w = Exited \<and> single_adapter w = single"
proof -
  let ?b = "benchmark_start single h"
  let ?s = "run_scenario single sched h"
  have len: "length (workers ?s) = nat (num_threads h)"
    using exec_workers [where sched = sched and h = "?b"] by (simp add: run_scenario_def benchmark_start_facts)
  have "map single_adapter (workers ?s) = map single_adapter (workers ?b)"
    using exec_workers [where sched = sched and h = "?b"] by (simp add: run_scenario_def)
  then have "single_adapter (workers ?s ! 0) = single"
    using len assms(1) by (metis benchmark_start_facts(1) length_map new_worker_facts(1)
        nth_map nth_replicate zero_less_nat_eq)
  moreover have "phase (workers ?s ! 0) = Exited"
    using assms len by (simp add: all_exited_def list_all_length)
  moreover have "workers ?s ! 0 \<in> set (workers ?s)"
    using len assms(1) by (intro nth_mem) simp
  ultimately show ?thesis by blast
qed

lemma single_run_bound:
  assumes "valid_schedule sched (benchmark_start True h)"
  shows "length sched \<le> 2 * nat (total_requests h) + nat (num_threads h)"
proof -
  let ?b = "benchmark_start True h"
  have "list_all single_adapter (workers ?b)"
    using benchmark_start_invariants(4) [of True h] by simp
  then have "adapter_counters (exec sched ?b) = adapter_counters h"
    using exec_single_only [where sched = sched and h = "?b"] by (simp add: benchmark_start_facts)
  then have "2 * sum_list (map nat (adapter_counters h)) \<le> work_left (exec sched ?b)"
    using work_left_lower(1) [of "exec sched ?b"] by simp
  moreover have "work_left ?b
      = 2 * (nat (total_requests h) + sum_list (map nat (adapter_counters h))) + nat (num_threads h)"
    by (simp add: work_left_def benchmark_start_invariants benchmark_start_facts(2,3))
  ultimately show ?thesis
    using exec_work_left [OF assms] by simp
qed

lemma single_run_total:
  assumes "counters_nonneg h" "0 < num_threads h" "all_exited (run_scenario True sched h)"
  shows "total_requests (run_scenario True sched h) = 0"
    and "int (length (sent (run_scenario True sched h))) = int (length (sent h)) + total_requests h"
    and "int (total_requests_made (run_scenario True sched h)) = total_requests h"
proof -
  let ?b = "benchmark_start True h"
  let ?s = "run_scenario True sched h"
  have "exit_justified ?s"
    unfolding run_scenario_def by (rule exec_exit_justified) (rule benchmark_start_invariants)
  with run_some_exited [OF assms(2,3)] have "total_requests ?s \<le> 0"
    by (auto simp: exit_justified_def list_all_iff)
  moreover have "counters_nonneg ?s"
    unfolding run_scenario_def
    by (rule exec_counters_nonneg) (simp add: benchmark_start_invariants assms(1))
  ultimately show z: "total_requests ?s = 0"
    by (simp add: counters_nonneg_def)
  have "list_all single_adapter (workers ?b)"
    using benchmark_start_invariants(4) [of True h] by simp
  then have "adapter_counters ?s = adapter_counters h"
    using exec_single_only [where sched = sched and h = "?b"] by (simp add: run_scenario_def benchmark_start_facts)
  with exec_conserved [where sched = sched and h = "?b"] z
  show n: "int (length (sent ?s)) = int (length (sent h)) + total_requests h"
    by (simp add: run_scenario_def benchmark_start_facts)
  from run_calls(1) [OF assms(3)] n
  show "int (total_requests_made ?s) = total_requests h" by simp
qed

lemma single_run_no_overshoot:
  assumes "counters_nonneg h"
  shows "int (length (sent (run_scenario True sched h))) \<le> int (length (sent h)) + total_requests h"
proof -
  let ?b = "benchmark_start True h"
  let ?s = "run_scenario True sched h"
  have "counters_nonneg ?s"
    unfolding run_scenario_def
    by (rule exec_counters_nonneg) (simp add: benchmark_start_invariants assms)
  then have "0 \<le> total_requests ?s" by (simp add: counters_nonneg_def)
  moreover have "list_all single_adapter (workers ?b)"
    using benchmark_start_invariants(4) [of True h] by simp
  then have "adapter_counters ?s = adapter_counters h"
    using exec_single_only [where sched = sched and h = "?b"]
    by (simp add: run_scenario_def benchmark_start_facts)
  ultimately show ?thesis
    using exec_conserved [where sched = sched and h = "?b"]
    by (simp add: run_scenario_def benchmark_start_facts)
qed

lemma exec_single_adapter:
  "list_all (\<lambda>w. P (single_adapter w)) (workers (exec sched h))
   = list_all (\<lambda>w. P (single_adapter w)) (workers h)"
proof -
  have "list_all P (map single_adapter (workers (exec sched h)))
        = list_all P (map single_adapter (workers h))"
    by (simp add: exec_workers)
  then show ?thesis by (simp add: list.pred_map comp_def)
qed

lemma run_single_adapter:
  "list_all (\<lambda>w. single_adapter w = single) (workers (run_scenario single sched h))"
  unfolding run_scenario_def exec_single_adapter [of "\<lambda>b. b = single"]
  by (rule benchmark_start_invariants)

lemma single_run_issued:
  assumes "counters_nonneg h"
    and "\<exists>w \<in> set (workers (run_scenario True sched h)). phase w = Exited"
  shows "total_requests (run_scenario True sched h) = 0"
    and "int (length (sent (run_scenario True sched h))) = int (length (sent h)) + total_requests h"
proof -
  let ?b = "benchmark_start True h"
  let ?s = "run_scenario True sched h"
  have "exit_justified ?s"
    unfolding run_scenario_def by (rule exec_exit_justified) (rule benchmark_start_invariants)
  with assms(2) run_single_adapter [of True sched h] have "total_requests ?s \<le> 0"
    by (auto simp: exit_justified_def list_all_iff)
  moreover have "counters_nonneg ?s"
    unfolding run_scenario_def
    by (rule exec_counters_nonneg) (simp add: benchmark_start_invariants assms(1))
  ultimately show z: "total_requests ?s = 0"
    by (simp add: counters_nonneg_def)
  have "list_all single_adapter (workers ?b)"
    using benchmark_start_invariants(4) [of True h] by simp
  then have "adapter_counters ?s = adapter_counters h"
    using exec_single_only [where sched = sched and h = "?b"]
    by (simp add: run_scenario_def benchmark_start_facts)
  with exec_conserved [where sched = sched and h = "?b"] z
  show "int (length (sent ?s)) = int (length (sent h)) + total_requests h"
    by (simp add: run_scenario_def benchmark_start_facts)
qed

subsection \<open>Single-adapter mode\<close>

text \<open>
  Claim C1, as the code has it. The module is configured with a budget of 300 requests and \<open>W\<close> threads,
  \<open>W\<close> one of 1, 5 and 20, and the single-adapter scenario runs under any interleaving of
  the threads (each step of the schedule is one that its thread can take). Then the run
  ends: the schedule has at most \<open>2 * 300 + W\<close> steps, and as long as a thread has not
  ended, a step is possible. No state of the run has more than 300 remote calls. As soon
  as one thread has left its loop, exactly 300 remote calls have been issued; and once
  every thread has left its loop, exactly 300 remote calls have been made, 300 latencies
  are recorded, and the shared counter is zero. (A thread whose remote call raises ends
  without leaving its loop; the unit it had claimed is spent.)
\<close>

theorem single_adapter_exactly_300:
  assumes "W \<in> {1, 5, 20}" and "configure 300 A W = Inr h0"
    and "valid_schedule sched (benchmark_start True h0)"
  shows "length sched \<le> 2 * 300 + nat W
     \<and> (joined (run_scenario True sched h0) \<or> (\<exists>e. enabled e (run_scenario True sched h0)))
     \<and> length (sent (run_scenario True sched h0)) \<le> 300
     \<and> ((\<exists>w \<in> set (workers (run_scenario True sched h0)). phase w = Exited) \<longrightarrow>
          length (sent (run_scenario True sched h0)) = 300)
     \<and> (all_exited (run_scenario True sched h0) \<longrightarrow>
          length (sent (run_scenario True sched h0)) = 300
          \<and> total_requests_made (run_scenario True sched h0) = 300
          \<and> total_requests (run_scenario True sched h0) = 0)"
proof -
  note c = configure_facts [OF assms(2)]
  have nn: "counters_nonneg h0" using assms(2) by (rule configure_nonneg) simp
  have w: "0 < num_threads h0" using assms(1) c(3) by auto
  have "length sched \<le> 2 * 300 + nat W"
    using single_run_bound [OF assms(3)] c by simp
  moreover have "joined (run_scenario True sched h0) \<or> (\<exists>e. enabled e (run_scenario True sched h0))"
    using progress by blast
  moreover have "length (sent (run_scenario True sched h0)) \<le> 300"
    using single_run_no_overshoot [OF nn, of sched] c by simp
  moreover have "length (sent (run_scenario True sched h0)) = 300"
    if "\<exists>w \<in> set (workers (run_scenario True sched h0)). phase w = Exited"
    using single_run_issued(2) [OF nn that] c by simp
  moreover have "length (sent (run_scenario True sched h0)) = 300
          \<and> total_requests_made (run_scenario True sched h0) = 300
          \<and> total_requests (run_scenario True sched h0) = 0"
    if "all_exited (run_scenario True sched h0)"
    using single_run_total [OF nn w that] c by simp
  ultimately show ?thesis by blast
qed

text \<open>The schedule of one thread alone is a run to the end.\<close>

lemma solo_schedule_Suc:
  "solo_schedule (Suc n) l = (0, Lock 0) # (0, Return l) # solo_schedule n l"
  "solo_schedule 0 l = [(0, Lock 0)]"
  by (simp_all add: solo_schedule_def)

lemma solo_single_run:
  assumes "workers h = [w]" "single_adapter w" "phase w = AtLock" "total_requests h = int n"
  shows "valid_schedule (solo_schedule n l) h \<and> all_exited (exec (solo_schedule n l) h)"
  using assms
proof (induction n arbitrary: h w)
  case 0
  then show ?case
    by (simp add: solo_schedule_Suc enabled_def step_def critical_section_def set_worker_def
        all_exited_def)
next
  case (Suc n)
  let ?h1 = "step (0, Lock 0) h"
  let ?h2 = "step (0, Return l) ?h1"
  have h1: "workers ?h1 = [w\<lparr>phase := Calling 1\<rparr>]" "total_requests ?h1 = int n"
    using Suc.prems by (simp_all add: step_def critical_section_def set_worker_def)
  then have h2: "workers ?h2 = [w\<lparr>phase := AtLock, latencies := latencies w @ [l]\<rparr>]"
    "total_requests ?h2 = int n"
    by (simp_all add: step_def set_worker_def)
  have "valid_schedule (solo_schedule n l) ?h2 \<and> all_exited (exec (solo_schedule n l) ?h2)"
    using h2 Suc.prems(2)
    by (intro Suc.IH [where w = "w\<lparr>phase := AtLock, latencies := latencies w @ [l]\<rparr>"]) simp_all
  moreover have "enabled (0, Lock 0) h" using Suc.prems by (simp add: enabled_def)
  moreover have "enabled (0, Return l) ?h1" using h1 by (simp add: enabled_def)
  ultimately show ?case by (simp add: solo_schedule_Suc)
qed

subsection \<open>Runs of several threads\<close>

lemma exec_append: "exec (a @ b) h = exec b (exec a h)"
  by (induction a arbitrary: h) simp_all

lemma valid_schedule_append:
  "valid_schedule (a @ b) h = (valid_schedule a h \<and> valid_schedule b (exec a h))"
  by (induction a arbitrary: h) simp_all

lemma step_claim_single:
  assumes "i < length (workers h)" "phase (workers h ! i) = AtLock" "single_adapter (workers h ! i)"
    "0 < total_requests h"
  shows "enabled (i, Lock r) h"
    and "step (i, Lock r) h = h\<lparr>total_requests := total_requests h - 1,
           workers := (workers h)[i := (workers h ! i)\<lparr>phase := Calling 1\<rparr>],
           sent := sent h @ [payload_adapter 1]\<rparr>"
  using assms by (simp_all add: enabled_def step_def critical_section_def set_worker_def)

lemma step_leave_single:
  assumes "i < length (workers h)" "phase (workers h ! i) = AtLock" "single_adapter (workers h ! i)"
    "total_requests h \<le> 0"
  shows "enabled (i, Lock r) h"
    and "step (i, Lock r) h = h\<lparr>workers := (workers h)[i := (workers h ! i)\<lparr>phase := Exited,
           aggregate_latency := aggregate_latency (workers h ! i) @ latencies (workers h ! i)\<rparr>]\<rparr>"
  using assms by (simp_all add: enabled_def step_def critical_section_def set_worker_def)

lemma step_return:
  assumes "i < length (workers h)" "phase (workers h ! i) = Calling a"
  shows "enabled (i, Return l) h"
    and "step (i, Return l) h = h\<lparr>workers := (workers h)[i := (workers h ! i)\<lparr>phase := AtLock,
           latencies := latencies (workers h ! i) @ [l]\<rparr>]\<rparr>"
  using assms by (simp_all add: enabled_def step_def set_worker_def)

lemma phase_update_same: "phase w = p \<Longrightarrow> w\<lparr>phase := p\<rparr> = w"
  by (cases w) simp

lemma worker_calls_Suc:
  "worker_calls i (Suc n) l = (i, Lock 0) # (i, Return l) # worker_calls i n l"
  "worker_calls i 0 l = []"
  by (simp_all add: worker_calls_def)

lemma worker_calls_single:
  assumes "i < length (workers h)" "phase (workers h ! i) = AtLock" "single_adapter (workers h ! i)"
    "int n \<le> total_requests h"
  shows "valid_schedule (worker_calls i n l) h
     \<and> exec (worker_calls i n l) h
         = h\<lparr>total_requests := total_requests h - int n,
              workers := (workers h)[i := (workers h ! i)\<lparr>latencies := latencies (workers h ! i) @ replicate n l\<rparr>],
              sent := sent h @ replicate n (payload_adapter 1)\<rparr>"
  using assms
proof (induction n arbitrary: h)
  case 0
  then show ?case by (simp add: worker_calls_Suc)
next
  case (Suc n)
  let ?w = "workers h ! i"
  let ?h1 = "h\<lparr>total_requests := total_requests h - 1,
           workers := (workers h)[i := ?w\<lparr>phase := Calling 1\<rparr>],
           sent := sent h @ [payload_adapter 1]\<rparr>"
  let ?h2 = "h\<lparr>total_requests := total_requests h - 1,
           workers := (workers h)[i := ?w\<lparr>latencies := latencies ?w @ [l]\<rparr>],
           sent := sent h @ [payload_adapter 1]\<rparr>"
  have pos: "0 < total_requests h" using Suc.prems(4) by simp
  note s1 = step_claim_single [OF Suc.prems(1,2,3) pos, of 0]
  have "i < length (workers ?h1)" "phase (workers ?h1 ! i) = Calling 1"
    using Suc.prems(1) by simp_all
  note s2 = step_return [OF this, of l]
  have "(?w\<lparr>phase := Calling 1\<rparr>)\<lparr>phase := AtLock, latencies := latencies ?w @ [l]\<rparr>
        = (?w\<lparr>phase := AtLock\<rparr>)\<lparr>latencies := latencies ?w @ [l]\<rparr>"
    by simp
  also have "\<dots> = ?w\<lparr>latencies := latencies ?w @ [l]\<rparr>"
    using Suc.prems(2) by (simp only: phase_update_same)
  finally have h2: "step (i, Return l) ?h1 = ?h2"
    unfolding s2(2) using Suc.prems(1) by simp
  have "i < length (workers ?h2)" "phase (workers ?h2 ! i) = AtLock"
    "single_adapter (workers ?h2 ! i)" "int n \<le> total_requests ?h2"
    using Suc.prems by simp_all
  note ih = Suc.IH [OF this]
  have "exec (worker_calls i n l) ?h2
        = h\<lparr>total_requests := total_requests h - int (Suc n),
              workers := (workers h)[i := ?w\<lparr>latencies := latencies ?w @ replicate (Suc n) l\<rparr>],
              sent := sent h @ replicate (Suc n) (payload_adapter 1)\<rparr>"
    using ih Suc.prems(1) by (simp add: replicate_app_Cons_same)
  with ih s1 s2 h2 show ?case by (simp add: worker_calls_Suc)
qed

lemma list_update_Cons_numeral: "(x # xs)[numeral v := y] = x # xs[numeral v - 1 := y]"
  by (simp add: numeral_eq_Suc)

lemma contended_run:
  assumes "num_threads h = 5" "total_requests h = int n + 4"
  shows "valid_schedule (contended_schedule n l) (benchmark_start True h)
     \<and> all_exited (run_scenario True (contended_schedule n l) h)"
proof -
  let ?nw = "new_worker True"
  let ?w1 = "?nw\<lparr>latencies := [l]\<rparr>"
  let ?p = "payload_adapter 1"
  let ?opening = "[(0, Lock 0), (1, Lock 0), (2, Lock 0), (2, Return l), (0, Return l), (1, Return l)]"
  let ?contest = "[(0, Lock 0), (1, Lock 0), (2, Lock 0), (3, Lock 0), (4, Lock 0), (0, Return l), (0::nat, Lock 0)]"
  let ?b = "benchmark_start True h"
  let ?b1 = "h\<lparr>total_requests := int n + 1, workers := [?w1, ?w1, ?w1, ?nw, ?nw],
               sent := sent h @ [?p, ?p, ?p]\<rparr>"
  let ?b2 = "h\<lparr>total_requests := 1,
               workers := [?w1, ?w1, ?w1, ?nw\<lparr>latencies := replicate n l\<rparr>, ?nw],
               sent := sent h @ [?p, ?p, ?p] @ replicate n ?p\<rparr>"
  have b: "?b = h\<lparr>workers := [?nw, ?nw, ?nw, ?nw, ?nw]\<rparr>"
    using assms(1) by (simp add: benchmark_start_def eval_nat_numeral)
  have o: "valid_schedule ?opening ?b \<and> exec ?opening ?b = ?b1"
    unfolding b using assms(2)
    by (simp add: enabled_def step_def critical_section_def set_worker_def new_worker_def
        list_update_Cons_numeral)
  have "valid_schedule (worker_calls 3 n l) ?b1
     \<and> exec (worker_calls 3 n l) ?b1
         = ?b1\<lparr>total_requests := total_requests ?b1 - int n,
              workers := (workers ?b1)[3 := (workers ?b1 ! 3)\<lparr>latencies := latencies (workers ?b1 ! 3) @ replicate n l\<rparr>],
              sent := sent ?b1 @ replicate n (payload_adapter 1)\<rparr>"
    by (rule worker_calls_single) (simp_all add: new_worker_def)
  then have m: "valid_schedule (worker_calls 3 n l) ?b1 \<and> exec (worker_calls 3 n l) ?b1 = ?b2"
    by (simp add: new_worker_def list_update_Cons_numeral)
  have c: "valid_schedule ?contest ?b2 \<and> all_exited (exec ?contest ?b2)"
    by (simp add: enabled_def step_def critical_section_def set_worker_def new_worker_def
        list_update_Cons_numeral all_exited_def)
  have d: "contended_schedule n l = ?opening @ worker_calls 3 n l @ ?contest"
    by (simp add: contended_schedule_def)
  from o have o1: "valid_schedule ?opening ?b" and o2: "exec ?opening ?b = ?b1" by blast+
  from m have m1: "valid_schedule (worker_calls 3 n l) ?b1"
    and m2: "exec (worker_calls 3 n l) ?b1 = ?b2" by blast+
  from c have c1: "valid_schedule ?contest ?b2" and c2: "all_exited (exec ?contest ?b2)" by blast+
  have "valid_schedule (contended_schedule n l) ?b"
    unfolding d valid_schedule_append exec_append o2 m2 using o1 m1 c1 by blast
  moreover have "all_exited (run_scenario True (contended_schedule n l) h)"
    unfolding run_scenario_def d exec_append o2 m2 using c2 .
  ultimately show ?thesis by blast
qed

text \<open>Five threads share the budget of 300: three are inside the remote call at the
  same time, all five meet at the lock for the last unit, and one of them gets it.\<close>

theorem single_adapter_exactly_300_witness:
  "(5::int) \<in> {1, 5, 20}
   \<and> configure 300 50 5 = Inr \<lparr>total_requests = 300, num_adapters = 50, num_threads = 5,
         adapter_counters = replicate 50 6, workers = [], sent = []\<rparr>
   \<and> valid_schedule (contended_schedule 296 (1/2))
        (benchmark_start True \<lparr>total_requests = 300, num_adapters = 50, num_threads = 5,
           adapter_counters = replicate 50 6, workers = [], sent = []\<rparr>)
   \<and> all_exited (run_scenario True (contended_schedule 296 (1/2))
        \<lparr>total_requests = 300, num_adapters = 50, num_threads = 5,
           adapter_counters = replicate 50 6, workers = [], sent = []\<rparr>)
   \<and> length (contended_schedule 296 (1/2)) \<le> 2 * 300 + nat 5
   \<and> length (sent (run_scenario True (contended_schedule 296 (1/2))
        \<lparr>total_requests = 300, num_adapters = 50, num_threads = 5,
           adapter_counters = replicate 50 6, workers = [], sent = []\<rparr>)) = 300
   \<and> total_requests_made (run_scenario True (contended_schedule 296 (1/2))
        \<lparr>total_requests = 300, num_adapters = 50, num_threads = 5,
           adapter_counters = replicate 50 6, workers = [], sent = []\<rparr>) = 300"
proof -
  let ?h = "\<lparr>total_requests = 300, num_adapters = 50, num_threads = 5,
         adapter_counters = replicate 50 6, workers = [], sent = []\<rparr>"
  have W: "(5::int) \<in> {1, 5, 20}" by simp
  have c: "configure 300 50 5 = Inr ?h" by (simp add: configure_def)
  have "valid_schedule (contended_schedule 296 (1/2)) (benchmark_start True ?h)
        \<and> all_exited (run_scenario True (contended_schedule 296 (1/2)) ?h)"
    by (rule contended_run) simp_all
  then have v: "valid_schedule (contended_schedule 296 (1/2)) (benchmark_start True ?h)"
    and a: "all_exited (run_scenario True (contended_schedule 296 (1/2)) ?h)"
    by blast+
  from single_adapter_exactly_300 [OF W c v] a
  have "length (contended_schedule 296 (1/2)) \<le> 2 * 300 + nat 5"
    and "length (sent (run_scenario True (contended_schedule 296 (1/2)) ?h)) = 300"
    and "total_requests_made (run_scenario True (contended_schedule 296 (1/2)) ?h) = 300"
    by blast+
  with W c v a show ?thesis by blast
qed

text \<open>
  The total is not 300 in every run that ends. Nothing in \<^verbatim>\<open>invoke_adapter\<close> catches an
  exception of the remote call, which is made after the counter has been decremented: with
  one thread whose first call raises, the run is a valid schedule of two steps, the thread
  has ended (\<^verbatim>\<open>join\<close> returns), one remote call has been made, and the counter is left at
  299.
\<close>

theorem single_adapter_raise_counterexample:
  "(1::int) \<in> {1, 5, 20}
   \<and> configure 300 50 1 = Inr \<lparr>total_requests = 300, num_adapters = 50, num_threads = 1,
         adapter_counters = replicate 50 6, workers = [], sent = []\<rparr>
   \<and> valid_schedule [(0, Lock 0), (0, Raise)]
        (benchmark_start True \<lparr>total_requests = 300, num_adapters = 50, num_threads = 1,
           adapter_counters = replicate 50 6, workers = [], sent = []\<rparr>)
   \<and> joined (run_scenario True [(0, Lock 0), (0, Raise)]
        \<lparr>total_requests = 300, num_adapters = 50, num_threads = 1,
           adapter_counters = replicate 50 6, workers = [], sent = []\<rparr>)
   \<and> length (sent (run_scenario True [(0, Lock 0), (0, Raise)]
        \<lparr>total_requests = 300, num_adapters = 50, num_threads = 1,
           adapter_counters = replicate 50 6, workers = [], sent = []\<rparr>)) = 1
   \<and> total_requests (run_scenario True [(0, Lock 0), (0, Raise)]
        \<lparr>total_requests = 300, num_adapters = 50, num_threads = 1,
           adapter_counters = replicate 50 6, workers = [], sent = []\<rparr>) = 299
   \<and> length (sent (run_scenario True [(0, Lock 0), (0, Raise)]
        \<lparr>total_requests = 300, num_adapters = 50, num_threads = 1,
           adapter_counters = replicate 50 6, workers = [], sent = []\<rparr>)) \<noteq> 300"
  by (simp add: configure_def run_scenario_def benchmark_start_def new_worker_def enabled_def
      step_def critical_section_def set_worker_def joined_def ended_def)

subsection \<open>Distributed-random mode\<close>

lemma distributed_run_bound:
  assumes "valid_schedule sched (benchmark_start False h)"
  shows "length sched \<le> 2 * sum_list (map nat (adapter_counters h)) + nat (num_threads h)"
proof -
  let ?b = "benchmark_start False h"
  have "list_all (\<lambda>w. \<not> single_adapter w) (workers ?b)"
    using benchmark_start_invariants(4) [of False h] by simp
  then have "total_requests (exec sched ?b) = total_requests h"
    using exec_distributed_only [where sched = sched and h = "?b"] by (simp add: benchmark_start_facts)
  then have "2 * nat (total_requests h) \<le> work_left (exec sched ?b)"
    using work_left_lower(2) [of "exec sched ?b"] by simp
  moreover have "work_left ?b
      = 2 * (nat (total_requests h) + sum_list (map nat (adapter_counters h))) + nat (num_threads h)"
    by (simp add: work_left_def benchmark_start_invariants benchmark_start_facts(2,3))
  ultimately show ?thesis
    using exec_work_left [OF assms] by simp
qed

lemma distributed_run_total:
  assumes "counters_nonneg h" "0 < num_threads h" "all_exited (run_scenario False sched h)"
  shows "sum_list (adapter_counters (run_scenario False sched h)) = 0"
    and "int (length (sent (run_scenario False sched h)))
         = int (length (sent h)) + sum_list (adapter_counters h)"
    and "int (total_requests_made (run_scenario False sched h)) = sum_list (adapter_counters h)"
proof -
  let ?b = "benchmark_start False h"
  let ?s = "run_scenario False sched h"
  have "exit_justified ?s"
    unfolding run_scenario_def by (rule exec_exit_justified) (rule benchmark_start_invariants)
  with run_some_exited [OF assms(2,3)] have "list_all (\<lambda>c. c \<le> 0) (adapter_counters ?s)"
    by (auto simp: exit_justified_def list_all_iff)
  moreover have "counters_nonneg ?s"
    unfolding run_scenario_def
    by (rule exec_counters_nonneg) (simp add: benchmark_start_invariants assms(1))
  ultimately show z: "sum_list (adapter_counters ?s) = 0"
    by (simp add: counters_nonneg_def nonneg_nonpos_sum)
  have "list_all (\<lambda>w. \<not> single_adapter w) (workers ?b)"
    using benchmark_start_invariants(4) [of False h] by simp
  then have "total_requests ?s = total_requests h"
    using exec_distributed_only [where sched = sched and h = "?b"]
    by (simp add: run_scenario_def benchmark_start_facts)
  with exec_conserved [where sched = sched and h = "?b"] z
  show n: "int (length (sent ?s)) = int (length (sent h)) + sum_list (adapter_counters h)"
    by (simp add: run_scenario_def benchmark_start_facts)
  from run_calls(1) [OF assms(3)] n
  show "int (total_requests_made ?s) = sum_list (adapter_counters h)" by simp
qed

lemma distributed_run_issued:
  assumes "counters_nonneg h"
    and "\<exists>w \<in> set (workers (run_scenario False sched h)). phase w = Exited"
  shows "int (length (sent (run_scenario False sched h)))
         = int (length (sent h)) + sum_list (adapter_counters h)"
proof -
  let ?b = "benchmark_start False h"
  let ?s = "run_scenario False sched h"
  have "exit_justified ?s"
    unfolding run_scenario_def by (rule exec_exit_justified) (rule benchmark_start_invariants)
  with assms(2) run_single_adapter [of False sched h]
  have "list_all (\<lambda>c. c \<le> 0) (adapter_counters ?s)"
    by (auto simp: exit_justified_def list_all_iff)
  moreover have "counters_nonneg ?s"
    unfolding run_scenario_def
    by (rule exec_counters_nonneg) (simp add: benchmark_start_invariants assms(1))
  ultimately have z: "sum_list (adapter_counters ?s) = 0"
    by (simp add: counters_nonneg_def nonneg_nonpos_sum)
  have "list_all (\<lambda>w. \<not> single_adapter w) (workers ?b)"
    using benchmark_start_invariants(4) [of False h] by simp
  then have "total_requests ?s = total_requests h"
    using exec_distributed_only [where sched = sched and h = "?b"]
    by (simp add: run_scenario_def benchmark_start_facts)
  with exec_conserved [where sched = sched and h = "?b"] z
  show ?thesis
    by (simp add: run_scenario_def benchmark_start_facts)
qed

lemma distributed_run_no_overshoot:
  assumes "counters_nonneg h"
  shows "int (length (sent (run_scenario False sched h)))
         \<le> int (length (sent h)) + sum_list (adapter_counters h)"
proof -
  let ?b = "benchmark_start False h"
  let ?s = "run_scenario False sched h"
  have "counters_nonneg ?s"
    unfolding run_scenario_def
    by (rule exec_counters_nonneg) (simp add: benchmark_start_invariants assms)
  then have "0 \<le> sum_list (adapter_counters ?s)"
    by (simp add: counters_nonneg_def list_all_iff sum_list_nonneg)
  moreover have "list_all (\<lambda>w. \<not> single_adapter w) (workers ?b)"
    using benchmark_start_invariants(4) [of False h] by simp
  then have "total_requests ?s = total_requests h"
    using exec_distributed_only [where sched = sched and h = "?b"]
    by (simp add: run_scenario_def benchmark_start_facts)
  ultimately show ?thesis
    using exec_conserved [where sched = sched and h = "?b"]
    by (simp add: run_scenario_def benchmark_start_facts)
qed

lemma truncated_budget:
  assumes "0 < (A::int)"
  shows "A dvd T \<longrightarrow> A * (T div A) = T" "\<not> A dvd T \<longrightarrow> A * (T div A) < T"
proof -
  have eq: "A * (T div A) = T - T mod A" by (simp add: minus_mod_eq_mult_div)
  have "0 \<le> T mod A" using assms by simp
  moreover have "T mod A = 0 \<longleftrightarrow> A dvd T" by (simp add: dvd_eq_mod_eq_0)
  ultimately have "A dvd T \<longrightarrow> T mod A = 0" and "\<not> A dvd T \<longrightarrow> 0 < T mod A"
    by linarith+
  then show "A dvd T \<longrightarrow> A * (T div A) = T" "\<not> A dvd T \<longrightarrow> A * (T div A) < T"
    unfolding eq by simp_all
qed

text \<open>
  Claim C3, as the code has it. With a budget \<open>T\<close>, \<open>A\<close> adapters and at least one
  thread, every one of the \<open>A\<close> counters starts at \<open>T div A\<close> (six for 300 and 50), and the
  distributed-random scenario ends under every interleaving and every sequence of random
  draws (at most \<open>2 * A * (T div A) + W\<close> steps, and a step is possible while a thread has
  not ended). No state of the run has more than \<open>A * (T div A)\<close> remote calls. As soon as
  one thread has left its loop, and so once every thread has, the number of remote calls is
  \<open>A * (T div A)\<close>: it is \<open>T\<close> when \<open>A\<close> divides \<open>T\<close> and less than \<open>T\<close> otherwise. (A
  thread whose remote call raises ends without leaving its loop.)
\<close>

theorem distributed_random_total:
  assumes "0 \<le> T" and "0 < A" and "0 < W" and "configure T A W = Inr h0"
    and "valid_schedule sched (benchmark_start False h0)"
  shows "adapter_counters h0 = replicate (nat A) (T div A)
     \<and> length sched \<le> 2 * nat (A * (T div A)) + nat W
     \<and> (joined (run_scenario False sched h0) \<or> (\<exists>e. enabled e (run_scenario False sched h0)))
     \<and> int (length (sent (run_scenario False sched h0))) \<le> A * (T div A)
     \<and> ((\<exists>w \<in> set (workers (run_scenario False sched h0)). phase w = Exited) \<longrightarrow>
          int (length (sent (run_scenario False sched h0))) = A * (T div A))
     \<and> (all_exited (run_scenario False sched h0) \<longrightarrow>
          int (length (sent (run_scenario False sched h0))) = A * (T div A)
          \<and> int (total_requests_made (run_scenario False sched h0)) = A * (T div A)
          \<and> (A dvd T \<longrightarrow> int (length (sent (run_scenario False sched h0))) = T)
          \<and> (\<not> A dvd T \<longrightarrow> int (length (sent (run_scenario False sched h0))) < T))"
proof -
  note c = configure_facts [OF assms(4)]
  have nn: "counters_nonneg h0" using assms(4,1) by (rule configure_nonneg)
  have d: "0 \<le> T div A" using assms(1,2) by (simp add: pos_imp_zdiv_nonneg_iff)
  have sum: "sum_list (adapter_counters h0) = A * (T div A)"
    using c(2) assms(2) by (simp add: sum_list_replicate)
  have "int (sum_list (map nat (adapter_counters h0))) = A * (T div A)"
    using sum_list_nat_replicate [OF d, of "nat A"] c(2) assms(2) by simp
  then have "sum_list (map nat (adapter_counters h0)) = nat (A * (T div A))" by linarith
  then have "length sched \<le> 2 * nat (A * (T div A)) + nat W"
    using distributed_run_bound [OF assms(5)] c(3) by simp
  moreover have "joined (run_scenario False sched h0) \<or> (\<exists>e. enabled e (run_scenario False sched h0))"
    using progress by blast
  moreover have "int (length (sent (run_scenario False sched h0))) \<le> A * (T div A)"
    using distributed_run_no_overshoot [OF nn, of sched] sum c(6) by simp
  moreover have "int (length (sent (run_scenario False sched h0))) = A * (T div A)"
    if "\<exists>w \<in> set (workers (run_scenario False sched h0)). phase w = Exited"
    using distributed_run_issued [OF nn that] sum c(6) by simp
  moreover have "int (length (sent (run_scenario False sched h0))) = A * (T div A)
          \<and> int (total_requests_made (run_scenario False sched h0)) = A * (T div A)
          \<and> (A dvd T \<longrightarrow> int (length (sent (run_scenario False sched h0))) = T)
          \<and> (\<not> A dvd T \<longrightarrow> int (length (sent (run_scenario False sched h0))) < T)"
    if "all_exited (run_scenario False sched h0)"
  proof -
    have w: "0 < num_threads h0" using assms(3) c(3) by simp
    from distributed_run_total [OF nn w that] sum c(6)
    have "int (length (sent (run_scenario False sched h0))) = A * (T div A)"
      and "int (total_requests_made (run_scenario False sched h0)) = A * (T div A)"
      by simp_all
    then show ?thesis using truncated_budget [OF assms(2), of T] by simp
  qed
  ultimately show ?thesis using c(2) by blast
qed

lemma nonneg_sum_zero:
  "list_all (\<lambda>c. 0 \<le> c) cs \<Longrightarrow> sum_list cs = (0::int) \<Longrightarrow> list_all (\<lambda>c. c \<le> 0) cs"
proof (induction cs)
  case Nil
  then show ?case by simp
next
  case (Cons c cs)
  then have "0 \<le> c" "0 \<le> sum_list cs" by (auto simp: list_all_iff sum_list_nonneg)
  with Cons show ?case by auto
qed

lemma nonpos_sum: "list_all (\<lambda>c. c \<le> (0::int)) cs \<Longrightarrow> sum_list cs \<le> 0"
  by (induction cs) auto

lemma solo_distributed_run:
  assumes "workers h = w # ws" "\<not> single_adapter w" "phase w = AtLock"
    and "list_all (\<lambda>c. 0 \<le> c) (adapter_counters h)" "sum_list (adapter_counters h) = int n"
  shows "valid_schedule (solo_schedule n l) h
     \<and> (\<exists>w'. workers (exec (solo_schedule n l) h) = w' # ws \<and> phase w' = Exited)
     \<and> list_all (\<lambda>c. c \<le> 0) (adapter_counters (exec (solo_schedule n l) h))"
  using assms
proof (induction n arbitrary: h w)
  case 0
  then have z: "list_all (\<lambda>c. c \<le> 0) (adapter_counters h)"
    by (simp add: nonneg_sum_zero)
  then have "remaining_adapters (adapter_counters h) = []"
    by (simp add: remaining_Nil)
  with 0 z show ?case
    by (simp add: solo_schedule_Suc enabled_def step_def critical_section_def set_worker_def)
next
  case (Suc n)
  let ?h1 = "step (0, Lock 0) h"
  let ?h2 = "step (0, Return l) ?h1"
  have e1: "enabled (0, Lock 0) h" using Suc.prems by (simp add: enabled_def)
  have "\<exists>k. k < length (adapter_counters h) \<and> 0 < adapter_counters h ! k
          \<and> adapter_counters ?h1 = (adapter_counters h)[k := adapter_counters h ! k - 1]
          \<and> workers ?h1 = w\<lparr>phase := Calling (int k + 1)\<rparr> # ws"
  proof (cases "(0::nat, Lock 0)" h rule: step_cases)
    case idle
    with e1 show ?thesis by simp
  next
    case (leave i r w')
    then have "sum_list (adapter_counters h) \<le> 0"
      using Suc.prems(1,2) by (simp add: nonpos_sum)
    with Suc.prems(5) show ?thesis by simp
  next
    case (claim_one i r w')
    with Suc.prems(1,2) show ?thesis by simp
  next
    case (claim_random i r w' k)
    with Suc.prems(1) show ?thesis by auto
  qed simp_all
  then obtain k where k: "k < length (adapter_counters h)"
    and pos: "0 < adapter_counters h ! k"
    and c1: "adapter_counters ?h1 = (adapter_counters h)[k := adapter_counters h ! k - 1]"
    and w1: "workers ?h1 = w\<lparr>phase := Calling (int k + 1)\<rparr> # ws"
    by blast
  have e2: "enabled (0, Return l) ?h1" using w1 by (simp add: enabled_def)
  have w2: "workers ?h2 = w\<lparr>phase := AtLock, latencies := latencies w @ [l]\<rparr> # ws"
    and c2: "adapter_counters ?h2 = (adapter_counters h)[k := adapter_counters h ! k - 1]"
    using w1 c1 by (simp_all add: step_def set_worker_def)
  have nn: "list_all (\<lambda>c. 0 \<le> c) (adapter_counters ?h2)"
    unfolding c2 using Suc.prems(4) pos k by (auto simp: list_all_length nth_list_update)
  have sm: "sum_list (adapter_counters ?h2) = int n"
    unfolding c2 using Suc.prems(5) k by (simp add: sum_list_int_update)
  have "valid_schedule (solo_schedule n l) ?h2
     \<and> (\<exists>w'. workers (exec (solo_schedule n l) ?h2) = w' # ws \<and> phase w' = Exited)
     \<and> list_all (\<lambda>c. c \<le> 0) (adapter_counters (exec (solo_schedule n l) ?h2))"
    using w2 Suc.prems(2) nn sm
    by (intro Suc.IH [where w = "w\<lparr>phase := AtLock, latencies := latencies w @ [l]\<rparr>"]) simp_all
  with e1 e2 show ?case by (simp add: solo_schedule_Suc)
qed

lemma step_leave_distributed:
  assumes "i < length (workers h)" "phase (workers h ! i) = AtLock" "\<not> single_adapter (workers h ! i)"
    "list_all (\<lambda>c. c \<le> 0) (adapter_counters h)"
  shows "enabled (i, Lock r) h"
    and "step (i, Lock r) h = h\<lparr>workers := (workers h)[i := (workers h ! i)\<lparr>phase := Exited,
           aggregate_latency := aggregate_latency (workers h ! i) @ latencies (workers h ! i)\<rparr>]\<rparr>"
  using assms remaining_Nil [of "adapter_counters h"]
  by (simp_all add: enabled_def step_def critical_section_def set_worker_def)

lemma overlapped_run:
  assumes "num_threads h = 2" "list_all (\<lambda>c. 0 \<le> c) (adapter_counters h)"
    and "sum_list (adapter_counters h) = int n + 1"
  shows "valid_schedule (overlapped_schedule n l) (benchmark_start False h)
     \<and> all_exited (run_scenario False (overlapped_schedule n l) h)"
proof -
  let ?nw = "new_worker False"
  let ?b = "benchmark_start False h"
  let ?h1 = "step (1, Lock 7) ?b"
  let ?h2 = "exec (solo_schedule n l) ?h1"
  let ?h3 = "step (1, Return l) ?h2"
  let ?h4 = "step (1, Lock 0) ?h3"
  have b: "workers ?b = [?nw, ?nw]" "adapter_counters ?b = adapter_counters h"
    using assms(1) by (simp_all add: benchmark_start_def eval_nat_numeral)
  have e0: "enabled (1, Lock 7) ?b" using b by (simp add: enabled_def new_worker_def)
  have "\<exists>k. k < length (adapter_counters h) \<and> 0 < adapter_counters h ! k
          \<and> adapter_counters ?h1 = (adapter_counters h)[k := adapter_counters h ! k - 1]
          \<and> workers ?h1 = [?nw, ?nw\<lparr>phase := Calling (int k + 1)\<rparr>]"
  proof (cases "(1::nat, Lock 7)" ?b rule: step_cases)
    case idle
    with e0 show ?thesis by simp
  next
    case (leave i r w')
    then have "sum_list (adapter_counters h) \<le> 0"
      using b by (simp add: nonpos_sum new_worker_def)
    with assms(3) show ?thesis by simp
  next
    case (claim_one i r w')
    with b show ?thesis by (simp add: new_worker_def)
  next
    case (claim_random i r w' k)
    with b show ?thesis by auto
  qed simp_all
  then obtain k where k: "k < length (adapter_counters h)"
    and pos: "0 < adapter_counters h ! k"
    and c1: "adapter_counters ?h1 = (adapter_counters h)[k := adapter_counters h ! k - 1]"
    and w1: "workers ?h1 = ?nw # [?nw\<lparr>phase := Calling (int k + 1)\<rparr>]"
    by auto
  have nn: "list_all (\<lambda>c. 0 \<le> c) (adapter_counters ?h1)"
    unfolding c1 using assms(2) pos k by (auto simp: list_all_length nth_list_update)
  have sm: "sum_list (adapter_counters ?h1) = int n"
    unfolding c1 using assms(3) k by (simp add: sum_list_int_update)
  have "valid_schedule (solo_schedule n l) ?h1
     \<and> (\<exists>w'. workers ?h2 = w' # [?nw\<lparr>phase := Calling (int k + 1)\<rparr>] \<and> phase w' = Exited)
     \<and> list_all (\<lambda>c. c \<le> 0) (adapter_counters ?h2)"
    by (rule solo_distributed_run [OF w1 _ _ nn sm]) (simp_all add: new_worker_def)
  then obtain w' where v: "valid_schedule (solo_schedule n l) ?h1"
    and w2: "workers ?h2 = [w', ?nw\<lparr>phase := Calling (int k + 1)\<rparr>]"
    and x: "phase w' = Exited"
    and z2: "list_all (\<lambda>c. c \<le> 0) (adapter_counters ?h2)"
    by auto
  have "1 < length (workers ?h2)" "phase (workers ?h2 ! 1) = Calling (int k + 1)"
    using w2 by simp_all
  note r = step_return [OF this, of l]
  have w3: "workers ?h3 = [w', ?nw\<lparr>phase := AtLock, latencies := [l]\<rparr>]"
    and z3: "list_all (\<lambda>c. c \<le> 0) (adapter_counters ?h3)"
    unfolding r(2) using w2 z2 by (simp_all add: new_worker_def)
  have "1 < length (workers ?h3)" "phase (workers ?h3 ! 1) = AtLock"
    "\<not> single_adapter (workers ?h3 ! 1)"
    using w3 by (simp_all add: new_worker_def)
  note q = step_leave_distributed [OF this z3, of 0]
  have "all_exited ?h4"
    unfolding q(2) using w3 x by (simp add: all_exited_def)
  moreover have "valid_schedule (overlapped_schedule n l) ?b"
    unfolding overlapped_schedule_def using e0 v r(1) q(1)
    by (simp add: valid_schedule_append exec_append)
  moreover have "run_scenario False (overlapped_schedule n l) h = ?h4"
    by (simp add: run_scenario_def overlapped_schedule_def exec_append)
  ultimately show ?thesis by simp
qed

text \<open>Two threads: 300 calls for the budget 300 over 50 adapters, and 6 calls for the
  budget 7 over 3 adapters. Thread 1 is inside its call while thread 0 serves the rest.\<close>

theorem distributed_random_total_witness:
  "configure 300 50 2 = Inr \<lparr>total_requests = 300, num_adapters = 50, num_threads = 2,
         adapter_counters = replicate 50 6, workers = [], sent = []\<rparr>
   \<and> valid_schedule (overlapped_schedule 299 (1/2))
        (benchmark_start False \<lparr>total_requests = 300, num_adapters = 50, num_threads = 2,
           adapter_counters = replicate 50 6, workers = [], sent = []\<rparr>)
   \<and> all_exited (run_scenario False (overlapped_schedule 299 (1/2))
        \<lparr>total_requests = 300, num_adapters = 50, num_threads = 2,
           adapter_counters = replicate 50 6, workers = [], sent = []\<rparr>)
   \<and> length (sent (run_scenario False (overlapped_schedule 299 (1/2))
        \<lparr>total_requests = 300, num_adapters = 50, num_threads = 2,
           adapter_counters = replicate 50 6, workers = [], sent = []\<rparr>)) = 300
   \<and> configure 7 3 2 = Inr \<lparr>total_requests = 7, num_adapters = 3, num_threads = 2,
         adapter_counters = [2, 2, 2], workers = [], sent = []\<rparr>
   \<and> all_exited (run_scenario False (overlapped_schedule 5 (1/2))
        \<lparr>total_requests = 7, num_adapters = 3, num_threads = 2,
           adapter_counters = [2, 2, 2], workers = [], sent = []\<rparr>)
   \<and> length (sent (run_scenario False (overlapped_schedule 5 (1/2))
        \<lparr>total_requests = 7, num_adapters = 3, num_threads = 2,
           adapter_counters = [2, 2, 2], workers = [], sent = []\<rparr>)) = 6"
proof -
  let ?h = "\<lparr>total_requests = 300, num_adapters = 50, num_threads = 2,
         adapter_counters = replicate 50 6, workers = [], sent = []\<rparr>"
  let ?g = "\<lparr>total_requests = 7, num_adapters = 3, num_threads = 2,
         adapter_counters = [2, 2, 2], workers = [], sent = []\<rparr>"
  have ch: "configure 300 50 2 = Inr ?h" by (simp add: configure_def)
  have "valid_schedule (overlapped_schedule 299 (1/2)) (benchmark_start False ?h)
        \<and> all_exited (run_scenario False (overlapped_schedule 299 (1/2)) ?h)"
    by (rule overlapped_run) (simp_all add: list_all_length sum_list_replicate)
  then have vh: "valid_schedule (overlapped_schedule 299 (1/2)) (benchmark_start False ?h)"
    and ah: "all_exited (run_scenario False (overlapped_schedule 299 (1/2)) ?h)"
    by blast+
  have q: "(0::int) \<le> 300" "(0::int) < 50" "(0::int) < 2" by simp_all
  from distributed_random_total [OF q ch vh] ah
  have "int (length (sent (run_scenario False (overlapped_schedule 299 (1/2)) ?h))) = 50 * (300 div 50)"
    by blast
  then have nh: "length (sent (run_scenario False (overlapped_schedule 299 (1/2)) ?h)) = 300"
    by simp
  have cg: "configure 7 3 2 = Inr ?g" by (simp add: configure_def numeral_3_eq_3)
  have "valid_schedule (overlapped_schedule 5 (1/2)) (benchmark_start False ?g)
        \<and> all_exited (run_scenario False (overlapped_schedule 5 (1/2)) ?g)"
    by (rule overlapped_run) simp_all
  then have vg: "valid_schedule (overlapped_schedule 5 (1/2)) (benchmark_start False ?g)"
    and ag: "all_exited (run_scenario False (overlapped_schedule 5 (1/2)) ?g)"
    by blast+
  have p: "(0::int) \<le> 7" "(0::int) < 3" "(0::int) < 2" by simp_all
  from distributed_random_total [OF p cg vg] ag
  have "int (length (sent (run_scenario False (overlapped_schedule 5 (1/2)) ?g))) = 3 * (7 div 3)"
    by blast
  then have ng: "length (sent (run_scenario False (overlapped_schedule 5 (1/2)) ?g)) = 6"
    by simp
  from ch vh ah nh cg ag ng show ?thesis by simp
qed

text \<open>
  The total is not \<open>A * (T div A)\<close> in every run that ends. With one thread whose first
  call raises, the run is a valid schedule of two steps, the thread has ended, and one
  remote call has been made out of the 300 of the counters.
\<close>

theorem distributed_random_raise_counterexample:
  "configure 300 50 1 = Inr \<lparr>total_requests = 300, num_adapters = 50, num_threads = 1,
         adapter_counters = replicate 50 6, workers = [], sent = []\<rparr>
   \<and> valid_schedule [(0, Lock 0), (0, Raise)]
        (benchmark_start False \<lparr>total_requests = 300, num_adapters = 50, num_threads = 1,
           adapter_counters = replicate 50 6, workers = [], sent = []\<rparr>)
   \<and> joined (run_scenario False [(0, Lock 0), (0, Raise)]
        \<lparr>total_requests = 300, num_adapters = 50, num_threads = 1,
           adapter_counters = replicate 50 6, workers = [], sent = []\<rparr>)
   \<and> length (sent (run_scenario False [(0, Lock 0), (0, Raise)]
        \<lparr>total_requests = 300, num_adapters = 50, num_threads = 1,
           adapter_counters = replicate 50 6, workers = [], sent = []\<rparr>)) = 1
   \<and> int (length (sent (run_scenario False [(0, Lock 0), (0, Raise)]
        \<lparr>total_requests = 300, num_adapters = 50, num_threads = 1,
           adapter_counters = replicate 50 6, workers = [], sent = []\<rparr>))) \<noteq> 50 * (300 div 50)"
proof -
  let ?h = "\<lparr>total_requests = 300, num_adapters = 50, num_threads = 1,
         adapter_counters = replicate 50 6, workers = [], sent = []\<rparr>"
  let ?b = "benchmark_start False ?h"
  have c: "configure 300 50 1 = Inr ?h" by (simp add: configure_def)
  have r: "remaining_adapters (replicate 50 6) \<noteq> []"
    by (simp add: remaining_Nil list_all_iff)
  have k: "remaining_adapters (replicate 50 6) ! (0 mod length (remaining_adapters (replicate 50 6))) = 0"
    by (simp add: remaining_adapters_def upt_conv_Cons)
  have s1: "step (0, Lock 0) ?b = ?h\<lparr>adapter_counters := (replicate 50 6)[0 := 5],
               workers := [new_worker False\<lparr>phase := Calling 1\<rparr>],
               sent := [payload_adapter 1]\<rparr>"
    using r k by (simp add: step_def benchmark_start_def critical_section_def set_worker_def
        new_worker_def Let_def)
  have e1: "enabled (0, Lock 0) ?b" by (simp add: enabled_def benchmark_start_def new_worker_def)
  have e2: "enabled (0, Raise) (step (0, Lock 0) ?b)"
    unfolding s1 by (simp add: enabled_def)
  have s2: "step (0, Raise) (step (0, Lock 0) ?b) = ?h\<lparr>adapter_counters := (replicate 50 6)[0 := 5],
               workers := [new_worker False\<lparr>phase := Crashed\<rparr>],
               sent := [payload_adapter 1]\<rparr>"
    unfolding s1 by (simp add: step_def set_worker_def)
  have "joined (run_scenario False [(0, Lock 0), (0, Raise)] ?h)"
    and "length (sent (run_scenario False [(0, Lock 0), (0, Raise)] ?h)) = 1"
    unfolding run_scenario_def exec.simps s2 by (simp_all add: joined_def ended_def)
  with c e1 e2 show ?thesis by simp
qed

subsection \<open>Counters across runs\<close>

lemma run_scenarios_nonneg: "counters_nonneg h \<Longrightarrow> counters_nonneg (run_scenarios rs h)"
proof (induction rs arbitrary: h)
  case Nil
  then show ?case by simp
next
  case (Cons r rs)
  obtain single sched where r: "r = (single, sched)" by (cases r)
  have "counters_nonneg (run_scenario single sched h)"
    unfolding run_scenario_def
    by (rule exec_counters_nonneg) (simp add: benchmark_start_invariants Cons.prems)
  then show ?case using Cons.IH r by simp
qed

text \<open>
  Claim C2. In every state that the harness reaches from a configuration with a budget
  \<open>T \<ge> 0\<close>, through any sequence of scenarios in either mode, each cut off at any point
  of any interleaving, the shared counter and every per-adapter counter are at least zero.
  A thread claims a unit only in the step in which it has found the counter positive.
\<close>

theorem counters_never_negative:
  assumes "0 \<le> T" and "configure T A W = Inr h0"
  shows "0 \<le> total_requests (run_scenarios rs h0)
         \<and> (\<forall>c \<in> set (adapter_counters (run_scenarios rs h0)). 0 \<le> c)
         \<and> (\<forall>e. counters_nonneg (step e (run_scenarios rs h0)))"
proof -
  have "counters_nonneg (run_scenarios rs h0)"
    using assms by (intro run_scenarios_nonneg configure_nonneg)
  moreover from this have "\<forall>e. counters_nonneg (step e (run_scenarios rs h0))"
    by (simp add: step_counters_nonneg)
  ultimately show ?thesis
    by (simp add: counters_nonneg_def list_all_iff)
qed

text \<open>Two threads and a budget of one: both visit the lock, one claims the unit, the
  other leaves; then a distributed-random run in which both threads visit the lock.\<close>

theorem counters_never_negative_witness:
  "configure 1 1 2 = Inr \<lparr>total_requests = 1, num_adapters = 1, num_threads = 2,
         adapter_counters = [1], workers = [], sent = []\<rparr>
   \<and> total_requests (run_scenarios [(True, [(0, Lock 0), (1, Lock 0)]), (False, [(1, Lock 5), (0, Lock 2)])]
        \<lparr>total_requests = 1, num_adapters = 1, num_threads = 2,
           adapter_counters = [1], workers = [], sent = []\<rparr>) = 0
   \<and> adapter_counters (run_scenarios [(True, [(0, Lock 0), (1, Lock 0)]), (False, [(1, Lock 5), (0, Lock 2)])]
        \<lparr>total_requests = 1, num_adapters = 1, num_threads = 2,
           adapter_counters = [1], workers = [], sent = []\<rparr>) = [0]
   \<and> map phase (workers (run_scenarios [(True, [(0, Lock 0), (1, Lock 0)]), (False, [(1, Lock 5), (0, Lock 2)])]
        \<lparr>total_requests = 1, num_adapters = 1, num_threads = 2,
           adapter_counters = [1], workers = [], sent = []\<rparr>)) = [Exited, Calling 1]
   \<and> 0 \<le> total_requests (run_scenarios [(True, [(0, Lock 0), (1, Lock 0)]), (False, [(1, Lock 5), (0, Lock 2)])]
        \<lparr>total_requests = 1, num_adapters = 1, num_threads = 2,
           adapter_counters = [1], workers = [], sent = []\<rparr>)"
proof -
  let ?h = "\<lparr>total_requests = 1, num_adapters = 1, num_threads = 2,
         adapter_counters = [1], workers = [], sent = []\<rparr>"
  let ?rs = "[(True, [(0, Lock 0), (1, Lock 0)]), (False, [(1, Lock 5), (0, Lock 2)])]"
  have c: "configure 1 1 2 = Inr ?h" by (simp add: configure_def)
  have p: "(0::int) \<le> 1" by simp
  have ev: "total_requests (run_scenarios ?rs ?h) = 0"
    "adapter_counters (run_scenarios ?rs ?h) = [0]"
    "map phase (workers (run_scenarios ?rs ?h)) = [Exited, Calling 1]"
    by code_simp+
  from counters_never_negative [OF p c, of ?rs]
  have "0 \<le> total_requests (run_scenarios ?rs ?h)" by blast
  with c ev show ?thesis by simp
qed

subsection \<open>An exhausted budget\<close>

lemma step_exhausted:
  assumes "total_requests h \<le> 0"
    and "list_all (\<lambda>w. single_adapter w \<and> latencies w = [] \<and> (phase w = AtLock \<or> phase w = Exited))
           (workers h)"
  shows "total_requests (step e h) \<le> 0 \<and> sent (step e h) = sent h
     \<and> list_all (\<lambda>w. single_adapter w \<and> latencies w = [] \<and> (phase w = AtLock \<or> phase w = Exited))
           (workers (step e h))"
proof (cases e h rule: step_cases)
  case idle
  with assms show ?thesis by simp
next
  case (leave i r w)
  have "list_all (\<lambda>w. single_adapter w \<and> latencies w = [] \<and> (phase w = AtLock \<or> phase w = Exited))
      ((workers h)[i := w\<lparr>phase := Exited, aggregate_latency := aggregate_latency w @ latencies w\<rparr>])"
    using assms(2)
  proof (rule list_all_update_weaken)
    show "single_adapter (w\<lparr>phase := Exited, aggregate_latency := aggregate_latency w @ latencies w\<rparr>)
        \<and> latencies (w\<lparr>phase := Exited, aggregate_latency := aggregate_latency w @ latencies w\<rparr>) = []
        \<and> (phase (w\<lparr>phase := Exited, aggregate_latency := aggregate_latency w @ latencies w\<rparr>) = AtLock
           \<or> phase (w\<lparr>phase := Exited, aggregate_latency := aggregate_latency w @ latencies w\<rparr>) = Exited)"
      using assms(2) leave(2,3) by (simp add: list_all_length)
  qed simp
  with leave assms(1) show ?thesis by simp
next
  case (claim_one i r w)
  with assms(1) show ?thesis by simp
next
  case (claim_random i r w k)
  with assms(2) show ?thesis by (simp add: list_all_length)
next
  case (return i l w a)
  with assms(2) show ?thesis by (auto simp: list_all_length)
next
  case (raise i w a)
  with assms(2) show ?thesis by (auto simp: list_all_length)
qed

lemma exec_exhausted:
  assumes "total_requests h \<le> 0"
    and "list_all (\<lambda>w. single_adapter w \<and> latencies w = [] \<and> (phase w = AtLock \<or> phase w = Exited))
           (workers h)"
  shows "sent (exec sched h) = sent h
     \<and> list_all (\<lambda>w. single_adapter w \<and> latencies w = [] \<and> (phase w = AtLock \<or> phase w = Exited))
           (workers (exec sched h))"
  using assms
proof (induction sched arbitrary: h)
  case Nil
  then show ?case by simp
next
  case (Cons e es)
  from step_exhausted [OF Cons.prems, of e] Cons.IH [of "step e h"] show ?case by simp
qed

lemma step_stays_zero:
  "counters_nonneg h \<Longrightarrow> total_requests h = 0 \<Longrightarrow> total_requests (step e h) = 0"
  using step_counters_nonneg [of h e] step_monotone [of e h] by (simp add: counters_nonneg_def)

lemma exec_stays_zero:
  "counters_nonneg h \<Longrightarrow> total_requests h = 0 \<Longrightarrow> total_requests (exec sched h) = 0"
proof (induction sched arbitrary: h)
  case Nil
  then show ?case by simp
next
  case (Cons e es)
  from Cons.prems have "counters_nonneg (step e h)" "total_requests (step e h) = 0"
    by (simp_all add: step_counters_nonneg step_stays_zero)
  with Cons.IH show ?case by simp
qed

lemma run_scenarios_stays_zero:
  "counters_nonneg h \<Longrightarrow> total_requests h = 0 \<Longrightarrow> total_requests (run_scenarios rs h) = 0"
proof (induction rs arbitrary: h)
  case Nil
  then show ?case by simp
next
  case (Cons r rs)
  obtain single sched where r: "r = (single, sched)" by (cases r)
  have "counters_nonneg (run_scenario single sched h)"
    unfolding run_scenario_def
    by (rule exec_counters_nonneg) (simp add: benchmark_start_invariants Cons.prems)
  moreover have "total_requests (run_scenario single sched h) = 0"
    unfolding run_scenario_def
    by (rule exec_stays_zero) (simp_all add: benchmark_start_invariants benchmark_start_facts Cons.prems)
  ultimately show ?case using Cons.IH r by simp
qed

lemma exhausted_run:
  assumes "total_requests h \<le> 0"
  shows "sent (run_scenario True sched h) = sent h"
    and "list_all (\<lambda>w. latencies w = [] \<and> (phase w = AtLock \<or> phase w = Exited))
           (workers (run_scenario True sched h))"
    and "total_requests_made (run_scenario True sched h) = 0"
proof -
  let ?b = "benchmark_start True h"
  let ?Q = "\<lambda>w. single_adapter w \<and> latencies w = [] \<and> (phase w = AtLock \<or> phase w = Exited)"
  have "list_all ?Q (workers ?b)"
    by (simp add: benchmark_start_facts list_all_iff new_worker_facts)
  with assms have r: "sent (exec sched ?b) = sent ?b \<and> list_all ?Q (workers (exec sched ?b))"
    by (intro exec_exhausted) (simp_all add: benchmark_start_facts)
  then show "sent (run_scenario True sched h) = sent h"
    by (simp add: run_scenario_def benchmark_start_facts)
  from r show l: "list_all (\<lambda>w. latencies w = [] \<and> (phase w = AtLock \<or> phase w = Exited))
           (workers (run_scenario True sched h))"
    by (simp add: run_scenario_def list_all_iff)
  have "list_all merged (workers (run_scenario True sched h))"
    unfolding run_scenario_def by (rule exec_merged) (rule benchmark_start_invariants)
  with l have "\<And>w. w \<in> set (workers (run_scenario True sched h)) \<Longrightarrow> aggregate_latency w = []"
    by (auto simp: list_all_iff merged_def)
  then have "map (\<lambda>w. length (aggregate_latency w)) (workers (run_scenario True sched h))
      = map (\<lambda>w. 0) (workers (run_scenario True sched h))"
    by (intro map_cong) simp_all
  then have "sum_list (map (\<lambda>w. length (aggregate_latency w)) (workers (run_scenario True sched h)))
      = sum_list (map (\<lambda>w. 0) (workers (run_scenario True sched h)))"
    by (rule arg_cong)
  then show "total_requests_made (run_scenario True sched h) = 0"
    by (simp add: total_requests_made_def all_latencies_def comp_def)
qed

lemma run_scenarios_num_threads: "num_threads (run_scenarios rs h) = num_threads h"
proof (induction rs arbitrary: h)
  case Nil
  then show ?case by simp
next
  case (Cons r rs)
  obtain single sched where r: "r = (single, sched)" by (cases r)
  have "num_threads (run_scenario single sched h) = num_threads h"
    using exec_workers [where sched = sched and h = "benchmark_start single h"]
    by (simp add: run_scenario_def benchmark_start_facts)
  with Cons.IH r show ?case by simp
qed

text \<open>
  Claim C9. A single-adapter run that has completed (every thread has left its loop)
  leaves the module-level counter \<open>total_requests\<close> at zero; \<^verbatim>\<open>benchmark_scenario\<close> does not
  assign it, and it stays zero through any further scenarios. In every later
  single-adapter run, under every interleaving, no remote call is made: no payload is sent,
  every thread is at the lock or has left its loop with an empty list of latencies, no
  latency is recorded, and the run is over after at most one step per thread.
\<close>

theorem exhausted_budget_not_reset:
  assumes "0 \<le> T" and "0 < W" and "configure T A W = Inr h0"
    and "all_exited (run_scenario True sched1 h0)"
  shows "total_requests (run_scenario True sched1 h0) = 0
     \<and> total_requests (benchmark_start True (run_scenario True sched1 h0)) = 0
     \<and> total_requests (run_scenarios rs (run_scenario True sched1 h0)) = 0
     \<and> sent (run_scenario True sched2 (run_scenarios rs (run_scenario True sched1 h0)))
         = sent (run_scenarios rs (run_scenario True sched1 h0))
     \<and> list_all (\<lambda>w. latencies w = [] \<and> (phase w = AtLock \<or> phase w = Exited))
          (workers (run_scenario True sched2 (run_scenarios rs (run_scenario True sched1 h0))))
     \<and> total_requests_made (run_scenario True sched2 (run_scenarios rs (run_scenario True sched1 h0))) = 0
     \<and> (valid_schedule sched2 (benchmark_start True (run_scenarios rs (run_scenario True sched1 h0)))
          \<longrightarrow> length sched2 \<le> nat W)"
proof -
  let ?s1 = "run_scenario True sched1 h0"
  let ?s = "run_scenarios rs ?s1"
  note c = configure_facts [OF assms(3)]
  have nn: "counters_nonneg h0" using assms(3,1) by (rule configure_nonneg)
  have w: "0 < num_threads h0" using assms(2) c(3) by simp
  have z1: "total_requests ?s1 = 0"
    using single_run_total(1) [OF nn w assms(4)] .
  have nn1: "counters_nonneg ?s1"
    unfolding run_scenario_def
    by (rule exec_counters_nonneg) (simp add: benchmark_start_invariants nn)
  have z: "total_requests ?s = 0"
    using nn1 z1 by (rule run_scenarios_stays_zero)
  have le: "total_requests ?s \<le> 0" using z by simp
  have "num_threads ?s1 = W"
    using exec_workers [where sched = sched1 and h = "benchmark_start True h0"] c(3)
    by (simp add: run_scenario_def benchmark_start_facts)
  then have nt: "num_threads ?s = W" by (simp add: run_scenarios_num_threads)
  have "length sched2 \<le> nat W" if "valid_schedule sched2 (benchmark_start True ?s)"
    using single_run_bound [OF that] z nt by simp
  with z1 z exhausted_run [OF le, of sched2] show ?thesis
    by (simp add: benchmark_start_facts)
qed

text \<open>A budget of two and one thread; the scenario is then run a second time.\<close>

theorem exhausted_budget_not_reset_witness:
  "configure 2 1 1 = Inr \<lparr>total_requests = 2, num_adapters = 1, num_threads = 1,
         adapter_counters = [2], workers = [], sent = []\<rparr>
   \<and> all_exited (run_scenario True (solo_schedule 2 (1/2))
        \<lparr>total_requests = 2, num_adapters = 1, num_threads = 1,
           adapter_counters = [2], workers = [], sent = []\<rparr>)
   \<and> total_requests (run_scenario True (solo_schedule 2 (1/2))
        \<lparr>total_requests = 2, num_adapters = 1, num_threads = 1,
           adapter_counters = [2], workers = [], sent = []\<rparr>) = 0
   \<and> length (sent (run_scenario True (solo_schedule 2 (1/2))
        \<lparr>total_requests = 2, num_adapters = 1, num_threads = 1,
           adapter_counters = [2], workers = [], sent = []\<rparr>)) = 2
   \<and> length (sent (run_scenario True [(0, Lock 0)] (run_scenario True (solo_schedule 2 (1/2))
        \<lparr>total_requests = 2, num_adapters = 1, num_threads = 1,
           adapter_counters = [2], workers = [], sent = []\<rparr>))) = 2
   \<and> map phase (workers (run_scenario True [(0, Lock 0)] (run_scenario True (solo_schedule 2 (1/2))
        \<lparr>total_requests = 2, num_adapters = 1, num_threads = 1,
           adapter_counters = [2], workers = [], sent = []\<rparr>))) = [Exited]
   \<and> total_requests_made (run_scenario True [(0, Lock 0)] (run_scenario True (solo_schedule 2 (1/2))
        \<lparr>total_requests = 2, num_adapters = 1, num_threads = 1,
           adapter_counters = [2], workers = [], sent = []\<rparr>)) = 0"
proof -
  let ?h = "\<lparr>total_requests = 2, num_adapters = 1, num_threads = 1,
         adapter_counters = [2], workers = [], sent = []\<rparr>"
  let ?s1 = "run_scenario True (solo_schedule 2 (1/2)) ?h"
  let ?s2 = "run_scenario True [(0, Lock 0)] ?s1"
  have c: "configure 2 1 1 = Inr ?h" by (simp add: configure_def)
  have p: "(0::int) \<le> 2" "(0::int) < 1" by simp_all
  have a: "all_exited ?s1" by code_simp
  have n1: "length (sent ?s1) = 2" by code_simp
  have ph: "map phase (workers ?s2) = [Exited]" by code_simp
  from exhausted_budget_not_reset [OF p c a, of "[]" "[(0, Lock 0)]"]
  have "total_requests ?s1 = 0" "sent ?s2 = sent ?s1" "total_requests_made ?s2 = 0"
    by simp_all
  with c a n1 ph show ?thesis by simp
qed

subsection \<open>The adapter of the single-adapter mode\<close>

lemma str_int_1: "str_int 1 = ''1''"
  by (simp add: str_int_def)

text \<open>
  Claim C10. Whatever the module state (budget, number of adapters, number of threads,
  counters), every payload that a single-adapter run sends is the payload of adapter 1,
  whose \<open>model\<close> field is the string \<open>1\<close>: the identifier is the constant of the source,
  and no variable of the configuration enters it.
\<close>

theorem single_adapter_model_is_1:
  "(\<exists>n. sent (run_scenario True sched h) = sent h @ replicate n (payload_adapter 1))
   \<and> model (payload_adapter 1) = ''1''
   \<and> (\<forall>pl \<in> set (drop (length (sent h)) (sent (run_scenario True sched h))). model pl = ''1'')"
proof -
  have "list_all single_adapter (workers (benchmark_start True h))"
    using benchmark_start_invariants(4) [of True h] by simp
  then obtain n where n: "sent (run_scenario True sched h) = sent h @ replicate n (payload_adapter 1)"
    using exec_single_only [where sched = sched and h = "benchmark_start True h"]
    by (auto simp: run_scenario_def benchmark_start_facts)
  have m: "model (payload_adapter 1) = ''1''"
    by (simp add: payload_adapter_def str_int_1)
  from n m show ?thesis by auto
qed

text \<open>Two threads, a budget of three, fifty adapters: three calls, interleaved.\<close>

theorem single_adapter_model_is_1_witness:
  "map model (sent (run_scenario True
      [(0, Lock 0), (1, Lock 0), (1, Return (1/2)), (1, Lock 0), (0, Return 1), (0, Lock 0), (1, Return 2)]
      \<lparr>total_requests = 3, num_adapters = 50, num_threads = 2,
         adapter_counters = replicate 50 0, workers = [], sent = []\<rparr>))
   = [''1'', ''1'', ''1'']"
proof -
  let ?h = "\<lparr>total_requests = 3, num_adapters = 50, num_threads = 2,
         adapter_counters = replicate 50 0, workers = [], sent = []\<rparr>"
  let ?sched = "[(0, Lock 0), (1, Lock 0), (1, Return (1/2)), (1, Lock 0), (0, Return 1),
                 (0, Lock 0), (1, Return 2)]"
  have len: "length (sent (run_scenario True ?sched ?h)) = 3" by code_simp
  from single_adapter_model_is_1 [of ?sched ?h]
  obtain n where n: "sent (run_scenario True ?sched ?h) = replicate n (payload_adapter 1)"
    and m: "model (payload_adapter 1) = ''1''"
    by auto
  from n len have "n = 3" by simp
  with n m show ?thesis by (simp add: numeral_3_eq_3)
qed

subsection \<open>The reported statistics\<close>





end
